theory Spec2Isabelle
  imports Main "HOL-Library.Multiset"
begin

section \<open>Python values shared by the two modules\<close>

text \<open>
  Every exception class the code raises is a constructor. The \<open>Agricola...\<close> classes are
  imported from the package root; only their names matter here. The spec's error kinds map
  onto them as follows: OutOfBounds is \<open>IndexError\<close>, Overlap is \<open>AgricolaImpossible\<close>,
  Disconnected is \<open>AgricolaLogicError\<close>, InsufficientResources and InsufficientCapacity are
  \<open>AgricolaNotEnoughResources\<close>, MalformedRequest is \<open>AgricolaPoorlyFormed\<close>.
  Error messages are not modelled.
\<close>

datatype error =
    IndexError | KeyError | TypeError | AttributeError | ValueError | StopIteration
  | AgricolaException | AgricolaNotEnoughResources | AgricolaLogicError
  | AgricolaPoorlyFormed | AgricolaImpossible

text \<open>
  A Python \<open>dict\<close> (also \<open>OrderedDict\<close> and \<open>Counter\<close>) is an association list in
  insertion order. \<open>dict_set\<close> is \<open>d[k] = v\<close>: an existing key keeps its position.
\<close>

type_synonym ('k, 'v) dict = "('k \<times> 'v) list"

fun dict_set :: "('k, 'v) dict \<Rightarrow> 'k \<Rightarrow> 'v \<Rightarrow> ('k, 'v) dict" where
  "dict_set [] k v = [(k, v)]"
| "dict_set ((k', v') # d) k v =
     (if k' = k then (k, v) # d else (k', v') # dict_set d k v)"

definition dict_of :: "('k \<times> 'v) list \<Rightarrow> ('k, 'v) dict" where
  "dict_of kvs = foldl (\<lambda>d (k, v). dict_set d k v) [] kvs"

definition Counter :: "'a list \<Rightarrow> ('a, int) dict" where
  "Counter xs =
     foldl (\<lambda>d x. dict_set d x (case map_of d x of None \<Rightarrow> 1 | Some c \<Rightarrow> c + 1)) [] xs"

text \<open>Running a fallible function over a list stops at the first exception.\<close>

fun map_err :: "('a \<Rightarrow> error + 'b) \<Rightarrow> 'a list \<Rightarrow> error + 'b list" where
  "map_err f [] = Inr []"
| "map_err f (x # xs) =
     (case f x of
        Inl e \<Rightarrow> Inl e
      | Inr y \<Rightarrow> (case map_err f xs of Inl e \<Rightarrow> Inl e | Inr ys \<Rightarrow> Inr (y # ys)))"

fun first_error :: "error option list \<Rightarrow> error option" where
  "first_error [] = None"
| "first_error (None # rs) = first_error rs"
| "first_error (Some e # rs) = Some e"

section \<open>utils.py\<close>

type_synonym cell = "int \<times> int"

text \<open>
  \<open>orthog_adjacent\<close> and \<open>index_check\<close> turn their arguments into numpy arrays, so the
  code computes on 64-bit integers where the definitions below compute on the integers
  themselves. The two agree as long as every number stays an \<open>int64\<close> and no
  difference of two coordinates wraps around, which holds when the coordinates and the
  shape lie in the range of \<open>int64_exact\<close>, from \<open>-2^62\<close> up to, but not
  including, \<open>2^62\<close>. Statements about arbitrary cells carry that range as a
  hypothesis (\<open>cell_exact\<close> for a pair).
\<close>

definition int64_exact :: "int \<Rightarrow> bool" where
  "int64_exact x = (- (2 ^ 62) \<le> x \<and> x < 2 ^ 62)"

definition cell_exact :: "int \<times> int \<Rightarrow> bool" where
  "cell_exact c = (int64_exact (fst c) \<and> int64_exact (snd c))"

definition orthog_adjacent :: "cell \<Rightarrow> cell \<Rightarrow> bool" where
  "orthog_adjacent a b =
     (let abs_diff = [\<bar>fst a - fst b\<bar>, \<bar>snd a - snd b\<bar>]
      in length (filter (\<lambda>d. d \<noteq> 0) abs_diff) = 1 \<and> sum_list abs_diff = 1)"

definition index_check :: "cell \<Rightarrow> int \<times> int \<Rightarrow> error option" where
  "index_check idx shp =
     (if (fst idx < 0 \<or> snd idx < 0) \<or> (fst idx \<ge> fst shp \<or> snd idx \<ge> snd shp)
      then Some IndexError else None)"

definition multiset_subtract :: "(int, int) dict \<Rightarrow> (int, int) dict \<Rightarrow> (int, int) dict" where
  "multiset_subtract a b =
     foldl (\<lambda>a_copy (k, v).
              case map_of a_copy k of
                None \<Rightarrow> a_copy
              | Some c \<Rightarrow> dict_set a_copy k (max 0 (c - v))) a b"

definition multiset_weight :: "(int, int) dict \<Rightarrow> int" where
  "multiset_weight a = sum_list (map (\<lambda>(k, v). k * v) a)"

text \<open>
  \<open>itertools.product(*[range(v+1) for k, v in iteritems(multiset)])\<close> is
  \<open>product_lists\<close> over the integer intervals \<open>[0..v]\<close>, the first position varying
  slowest. The loop returns at the first success, so it is an existential over the list.
\<close>

fun multiset_satisfy :: "int list \<Rightarrow> (int, int) dict \<Rightarrow> bool" where
  "multiset_satisfy [] multiset = True"
| "multiset_satisfy [c] multiset = (multiset_weight multiset \<ge> c)"
| "multiset_satisfy (c # cs) multiset =
     (if multiset_weight multiset < sum_list (c # cs) then False
      else list_ex
             (\<lambda>counts.
                let submultiset = dict_of (zip (map fst multiset) counts);
                    weight = multiset_weight submultiset
                in \<not> weight < c \<and>
                   multiset_satisfy cs (multiset_subtract multiset submultiset))
             (product_lists (map (\<lambda>(k, v). [0..v]) multiset)))"

section \<open>player.py: spatial objects\<close>

text \<open>
  A \<open>Room\<close>, a \<open>Stable\<close> and a \<open>Field\<close> are single-space objects: \<open>o.spaces\<close> is the
  one-element list \<open>[o.space]\<close>. Spaces are Python tuples \<open>(row, col)\<close>. Where a method
  accepts either one space or a list of spaces (the \<open>isinstance(spaces[0], int)\<close> test),
  the model takes the list; a call with one space is the call with the singleton list.
\<close>

datatype Room = Room cell

datatype Stable = Stable cell

fun Room_spaces :: "Room \<Rightarrow> cell list" where
  "Room_spaces (Room s) = [s]"

fun Stable_spaces :: "Stable \<Rightarrow> cell list" where
  "Stable_spaces (Stable s) = [s]"

fun Stable_capacity :: "Stable \<Rightarrow> int" where
  "Stable_capacity (Stable s) = 1"

record Field =
  space :: cell
  n_items :: int
  kind :: "string option"

text \<open>\<open>bool(kind)\<close> is false for \<open>None\<close> and for the empty string.\<close>

definition Field_init :: "cell \<Rightarrow> int \<Rightarrow> string option \<Rightarrow> error + Field" where
  "Field_init s n k =
     (if (n \<noteq> 0) \<noteq> (k \<noteq> None \<and> k \<noteq> Some [])
      then Inl ValueError
      else Inr \<lparr>space = s, n_items = n, kind = k\<rparr>)"

definition Field_spaces :: "Field \<Rightarrow> cell list" where
  "Field_spaces f = [space f]"

definition is_empty :: "Field \<Rightarrow> bool" where
  "is_empty f = (n_items f = 0)"

definition plant_grain :: "Field \<Rightarrow> error + Field" where
  "plant_grain f =
     (if \<not> is_empty f then Inl AgricolaLogicError
      else Inr (f\<lparr>n_items := 3, kind := Some ''grain''\<rparr>))"

definition plant_veg :: "Field \<Rightarrow> error + Field" where
  "plant_veg f =
     (if \<not> is_empty f then Inl AgricolaLogicError
      else Inr (f\<lparr>n_items := 2, kind := Some ''veg''\<rparr>))"

definition harvest :: "Field \<Rightarrow> bool \<times> Field" where
  "harvest f =
     (if n_items f > 0
      then (let f1 = f\<lparr>n_items := n_items f - 1\<rparr>
            in (True, if n_items f1 = 0 then f1\<lparr>kind := None\<rparr> else f1))
      else (False, f))"

type_synonym fence = "cell \<times> cell"

record Pasture =
  spaces :: "cell list"
  n_stables :: int
  fences :: "fence list"

definition cell_fences :: "cell \<Rightarrow> fence list" where
  "cell_fences s =
     [((fst s, snd s), (fst s, snd s + 1)),
      ((fst s, snd s + 1), (fst s + 1, snd s + 1)),
      ((fst s + 1, snd s), (fst s + 1, snd s + 1)),
      ((fst s, snd s), (fst s + 1, snd s))]"

text \<open>
  \<open>Pasture(spaces)\<close> reads \<open>spaces[0]\<close> first, so an empty list raises \<open>IndexError\<close>.
  \<open>list(set(spaces))\<close> is the list without repetitions (Python leaves its order open).
  The fences are counted over the argument as given, repetitions included.
\<close>

definition Pasture_init :: "cell list \<Rightarrow> error + Pasture" where
  "Pasture_init sp =
     (case sp of
        [] \<Rightarrow> Inl IndexError
      | _ # _ \<Rightarrow>
          Inr \<lparr>spaces = remdups sp, n_stables = 0,
               fences = map fst (filter (\<lambda>(f, c). c = 1)
                          (Counter (concat (map cell_fences sp))))\<rparr>)"

definition fences_for_pasture_group :: "Pasture list \<Rightarrow> fence list" where
  "fences_for_pasture_group ps = remdups (concat (map fences ps))"

definition add_stables :: "Pasture \<Rightarrow> int \<Rightarrow> Pasture" where
  "add_stables p n = p\<lparr>n_stables := n_stables p + n\<rparr>"

text \<open>
  Reading an integer attribute of a \<open>Pasture\<close> by name. The class and its bases define
  \<open>spaces\<close>, \<open>n_stables\<close>, \<open>_fences\<close> and the property \<open>fences\<close>; of these only
  \<open>n_stables\<close> is an integer. Any other name raises \<open>AttributeError\<close>.
\<close>

definition Pasture_int_attr :: "Pasture \<Rightarrow> string \<Rightarrow> error + int" where
  "Pasture_int_attr p name =
     (if name = ''n_stables'' then Inr (n_stables p) else Inl AttributeError)"

text \<open>\<open>return self.n_spaces * 2**(self.n_stables)\<close>, the left operand read first.\<close>

definition Pasture_capacity :: "Pasture \<Rightarrow> error + int" where
  "Pasture_capacity p =
     (case Pasture_int_attr p ''n_spaces'' of
        Inl e \<Rightarrow> Inl e
      | Inr n \<Rightarrow>
          (case Pasture_int_attr p ''n_stables'' of
             Inl e \<Rightarrow> Inl e
           | Inr k \<Rightarrow> Inr (n * 2 ^ nat k)))"

subsection \<open>The orthogonal-adjacency graph\<close>

text \<open>
  \<open>G.add_nodes_from\<close> keeps each node once, in insertion order; an edge joins every
  pair of \<open>itertools.combinations(G.nodes(), 2)\<close> that is orthogonally adjacent.
\<close>

definition add_nodes_from :: "cell list \<Rightarrow> cell list \<Rightarrow> cell list" where
  "add_nodes_from G xs = foldl (\<lambda>g x. if x \<in> set g then g else g @ [x]) G xs"

fun combinations2 :: "'a list \<Rightarrow> ('a \<times> 'a) list" where
  "combinations2 [] = []"
| "combinations2 (x # xs) = map (Pair x) xs @ combinations2 xs"

definition graph_of :: "cell list list \<Rightarrow> cell list \<times> (cell \<times> cell) list" where
  "graph_of objects =
     (let nodes = foldl add_nodes_from [] objects
      in (nodes, filter (\<lambda>(s0, s1). orthog_adjacent s0 s1) (combinations2 nodes)))"

text \<open>
  \<open>nx.is_connected\<close> belongs to the networkx library: the graph is connected when a
  search from one node reaches every node. The search adds the unvisited neighbours of
  the visited nodes until there are none.
\<close>

definition neighbours :: "(cell \<times> cell) list \<Rightarrow> cell list \<Rightarrow> cell \<Rightarrow> bool" where
  "neighbours edges vis n =
     list_ex (\<lambda>(a, b). (a \<in> set vis \<and> b = n) \<or> (b \<in> set vis \<and> a = n)) edges"

function reach :: "cell list \<Rightarrow> (cell \<times> cell) list \<Rightarrow> cell list \<Rightarrow> cell list" where
  "reach nodes edges vis =
     (let new = filter (\<lambda>n. n \<notin> set vis \<and> neighbours edges vis n) nodes
      in if new = [] then vis else reach nodes edges (vis @ new))"
  by pat_completeness auto
termination
proof (relation "measure (\<lambda>(nodes, edges, vis). card (set nodes - set vis))")
  show "wf (measure (\<lambda>(nodes, edges, vis). card (set nodes - set vis)))"
    by simp
next
  fix nodes :: "cell list" and edges :: "(cell \<times> cell) list" and vis new :: "cell list"
  assume new: "new = filter (\<lambda>n. n \<notin> set vis \<and> neighbours edges vis n) nodes"
    and ne: "new \<noteq> []"
  from ne obtain x where x: "x \<in> set new"
    by (cases new) auto
  with new have "x \<in> set nodes - set vis" "x \<notin> set nodes - set (vis @ new)"
    by auto
  moreover have "set nodes - set (vis @ new) \<subseteq> set nodes - set vis"
    by auto
  ultimately have "set nodes - set (vis @ new) \<subset> set nodes - set vis"
    by blast
  then have "card (set nodes - set (vis @ new)) < card (set nodes - set vis)"
    by (intro psubset_card_mono) auto
  then show "((nodes, edges, vis @ new), (nodes, edges, vis))
      \<in> measure (\<lambda>(nodes, edges, vis). card (set nodes - set vis))"
    by simp
qed

definition is_connected :: "cell list \<times> (cell \<times> cell) list \<Rightarrow> bool" where
  "is_connected G =
     (case fst G of
        [] \<Rightarrow> False
      | s # _ \<Rightarrow> list_all (\<lambda>n. n \<in> set (reach (fst G) (snd G) [s])) (fst G))"

text \<open>
  \<open>check_connected_group(objects)\<close> is \<open>orthog_graph(objects, require_connected=True)\<close>
  with the graph dropped. Its argument is the list of the objects' \<open>spaces\<close>.
\<close>

definition check_connected_group :: "cell list list \<Rightarrow> error option" where
  "check_connected_group objects =
     (let G = graph_of objects
      in if length (fst G) > 1 \<and> \<not> is_connected G then Some AgricolaLogicError else None)"

section \<open>player.py: the player\<close>

definition RESOURCE_TYPES :: "string list" where
  "RESOURCE_TYPES =
     [''food'', ''wood'', ''clay'', ''stone'', ''reed'', ''sheep'', ''boar'', ''cattle'',
      ''grain'', ''veg'', ''pastures'', ''fences'', ''fences_avail'', ''stables'',
      ''fenced_stables'', ''free_stables'', ''stables_avail'', ''rooms'', ''people'',
      ''people_avail'', ''grain_fields'', ''veg_fields'', ''empty_fields'', ''fields'',
      ''empty_spaces'', ''used_spaces'']"

definition ANIMALS :: "string list" where
  "ANIMALS = [''sheep'', ''boar'', ''cattle'']"

text \<open>The keys of \<open>self.resources\<close>, fixed by the constructor.\<close>

definition RESOURCE_KEYS :: "string list" where
  "RESOURCE_KEYS = [''food'', ''wood'', ''clay'', ''stone'', ''reed'', ''grain'', ''veg'']"

text \<open>The names \<open>Player\<close> defines with \<open>@property\<close>; none has a setter.\<close>

definition PROPERTIES :: "string list" where
  "PROPERTIES =
     [''rooms'', ''pastures'', ''fences'', ''stables'', ''fenced_stables'', ''free_stables'',
      ''fields'', ''grain_fields'', ''veg_fields'', ''empty_fields'', ''room_spaces'',
      ''pasture_spaces'', ''stable_spaces'', ''field_spaces'', ''used_spaces'',
      ''empty_spaces'']"

text \<open>
  The state of a \<open>Player\<close>.
  \<^item> \<open>resources\<close> and \<open>animals\<close> are the two dicts of the constructor. No code adds or
    removes a key, so each is a function read on its fixed keys only
    (\<open>RESOURCE_KEYS\<close>, \<open>ANIMALS\<close>).
  \<^item> \<open>attrs\<close> holds the instance attributes that \<open>setattr\<close> creates: \<open>Player\<close> defines
    \<open>__getattr__\<close> but no \<open>__setattr__\<close>, so \<open>setattr(player, 'wood', n)\<close> stores an
    instance attribute that every later \<open>getattr\<close> finds before \<open>__getattr__\<close> would
    look into \<open>resources\<close>. A change's keys are checked against \<open>RESOURCE_TYPES\<close>, so
    the names stored are keys of the two dicts, and \<open>getattr\<close> consults \<open>attrs\<close> for
    those names.
  \<^item> \<open>rooms_objs\<close>, \<open>pastures_objs\<close>, \<open>stables_objs\<close>, \<open>fields_objs\<close> are \<open>_rooms\<close>,
    \<open>_pastures\<close>, \<open>_stables\<close>, \<open>_fields\<close>.
  \<^item> \<open>self.occupied\<close> maps each kind to a list object. For rooms, stables and fields it
    is the very list the player extends in place, so the one field serves both. For
    pastures \<open>build_pastures\<close> rebinds \<open>self._pastures\<close> to a new list, which leaves
    \<open>occupied['pasture']\<close> pointing at the old one: \<open>occupied_pasture\<close> is that list.
  \<^item> \<open>room_cost\<close>, \<open>bread_rates\<close> and \<open>cooking_rates\<close> are set to fixed values by the
    constructor and assigned nowhere else; they are constants below.
\<close>

record Player =
  shape :: "int \<times> int"
  house_type :: string
  resources :: "string \<Rightarrow> int"
  animals :: "string \<Rightarrow> int"
  attrs :: "string \<rightharpoonup> int"
  people :: int
  people_avail :: int
  fences_avail :: int
  stables_avail :: int
  rooms_objs :: "Room list"
  pastures_objs :: "Pasture list"
  stables_objs :: "Stable list"
  fields_objs :: "Field list"
  occupied_pasture :: "Pasture list"

definition room_cost :: int where
  "room_cost = 5"

definition bread_rates :: "int list" where
  "bread_rates = [0]"

definition cooking_rates :: "(string, int) dict" where
  "cooking_rates = [(''grain'', 1), (''veg'', 1), (''sheep'', 0), (''boar'', 0), (''cattle'', 0)]"

subsection \<open>Derived quantities\<close>

definition rooms :: "Player \<Rightarrow> int" where
  "rooms p = int (length (rooms_objs p))"

definition pastures :: "Player \<Rightarrow> int" where
  "pastures p = int (length (pastures_objs p))"

definition stables :: "Player \<Rightarrow> int" where
  "stables p = int (length (stables_objs p))"

definition fields :: "Player \<Rightarrow> int" where
  "fields p = int (length (fields_objs p))"

text \<open>
  \<open>fenced_stables\<close> and \<open>free_stables\<close> evaluate \<open>any(s in p for p in self.pastures)\<close>
  for each stable, and \<open>self.pastures\<close> is the integer count: iterating it raises
  \<open>TypeError\<close> as soon as there is one stable.
\<close>

definition fenced_stables :: "Player \<Rightarrow> error + int" where
  "fenced_stables p = (if stables_objs p = [] then Inr 0 else Inl TypeError)"

definition free_stables :: "Player \<Rightarrow> error + int" where
  "free_stables p = (if stables_objs p = [] then Inr 0 else Inl TypeError)"

definition grain_fields :: "Player \<Rightarrow> int" where
  "grain_fields p = int (length (filter (\<lambda>f. kind f = Some ''grain'') (fields_objs p)))"

definition veg_fields :: "Player \<Rightarrow> int" where
  "veg_fields p = int (length (filter (\<lambda>f. kind f = Some ''veg'') (fields_objs p)))"

definition empty_fields :: "Player \<Rightarrow> int" where
  "empty_fields p = int (length (filter (\<lambda>f. kind f = None) (fields_objs p)))"

subsection \<open>Attribute access by name\<close>

text \<open>
  What \<open>getattr(player, key)\<close> yields: an integer, or an object that is not a number
  (the sets \<open>fences\<close>, \<open>used_spaces\<close>, \<open>empty_spaces\<close> and the \<open>..._spaces\<close> lists), whose
  comparison or sum with an integer raises \<open>TypeError\<close>. Besides the properties, the
  counters and the keys of the two dicts, which cover every name of \<open>RESOURCE_TYPES\<close>,
  an instance carries \<open>room_cost\<close>, an integer, and the names of \<open>OBJECT_ATTRIBUTES\<close>:
  the other attributes the constructor sets (strings, tuples, lists and dicts), the
  methods of the class, and the names every Python 3 object has. Any further name is
  one the player does not have.
\<close>

datatype pyval = IntV int | ObjV

definition OBJECT_ATTRIBUTES :: "string list" where
  "OBJECT_ATTRIBUTES =
     [''name'', ''resources'', ''animals'', ''shape'', ''house_type'', ''_rooms'',
      ''_pastures'', ''_stables'', ''_fields'', ''occupations'', ''minor_improvements'',
      ''major_improvements'', ''played_cards'', ''hand'', ''house_progression'',
      ''bread_rates'', ''cooking_rates'', ''harvest_rates'', ''occupied'',
      ''give_cards'', ''score'', ''harvest'', ''_check_spatial_objects'', ''add_people'',
      ''add_resources'', ''add_animals'', ''change_state'', ''build_rooms'',
      ''upgrade_house'', ''build_pastures'', ''build_stables'', ''_check_animal_capacity'',
      ''plow_fields'', ''sow'', ''bake_bread'', ''cook_food'', ''play_occupation'',
      ''play_minor_improvement'', ''play_major_improvement'', ''__init__'',
      ''__getattr__'', ''__str__'', ''__class__'', ''__delattr__'', ''__dict__'',
      ''__dir__'', ''__doc__'', ''__eq__'', ''__format__'', ''__ge__'',
      ''__getattribute__'', ''__gt__'', ''__hash__'', ''__init_subclass__'', ''__le__'',
      ''__lt__'', ''__module__'', ''__ne__'', ''__new__'', ''__reduce__'',
      ''__reduce_ex__'', ''__repr__'', ''__setattr__'', ''__sizeof__'',
      ''__subclasshook__'', ''__weakref__'']"

definition getattr :: "Player \<Rightarrow> string \<Rightarrow> error + pyval" where
  "getattr p key =
     (if key = ''rooms'' then Inr (IntV (rooms p))
      else if key = ''pastures'' then Inr (IntV (pastures p))
      else if key = ''stables'' then Inr (IntV (stables p))
      else if key = ''fields'' then Inr (IntV (fields p))
      else if key = ''fenced_stables'' then map_sum id IntV (fenced_stables p)
      else if key = ''free_stables'' then map_sum id IntV (free_stables p)
      else if key = ''grain_fields'' then Inr (IntV (grain_fields p))
      else if key = ''veg_fields'' then Inr (IntV (veg_fields p))
      else if key = ''empty_fields'' then Inr (IntV (empty_fields p))
      else if key \<in> set PROPERTIES then Inr ObjV
      else if key = ''people'' then Inr (IntV (people p))
      else if key = ''people_avail'' then Inr (IntV (people_avail p))
      else if key = ''fences_avail'' then Inr (IntV (fences_avail p))
      else if key = ''stables_avail'' then Inr (IntV (stables_avail p))
      else if key \<in> set RESOURCE_KEYS
        then Inr (IntV (case attrs p key of Some v \<Rightarrow> v | None \<Rightarrow> resources p key))
      else if key \<in> set ANIMALS
        then Inr (IntV (case attrs p key of Some v \<Rightarrow> v | None \<Rightarrow> animals p key))
      else if key = ''room_cost'' then Inr (IntV room_cost)
      else if key \<in> set OBJECT_ATTRIBUTES then Inr ObjV
      else Inl AttributeError)"

definition setattr :: "Player \<Rightarrow> string \<Rightarrow> int \<Rightarrow> error + Player" where
  "setattr p key v =
     (if key \<in> set PROPERTIES then Inl AttributeError
      else if key = ''people'' then Inr (p\<lparr>people := v\<rparr>)
      else if key = ''people_avail'' then Inr (p\<lparr>people_avail := v\<rparr>)
      else if key = ''fences_avail'' then Inr (p\<lparr>fences_avail := v\<rparr>)
      else if key = ''stables_avail'' then Inr (p\<lparr>stables_avail := v\<rparr>)
      else Inr (p\<lparr>attrs := (attrs p)(key \<mapsto> v)\<rparr>))"

subsection \<open>PlayerStateChange\<close>

text \<open>
  The callbacks of a state change are never called: \<open>check_and_apply\<close> evaluates
  \<open>self.game\<close> to build the call, and a \<open>PlayerStateChange\<close> has no such attribute. Only
  whether the two lists are empty matters, so their elements are of an opaque type.
\<close>

typedecl callback

record PlayerStateChange =
  description :: string
  change :: "(string, int) dict"
  prereq :: "(string, int) dict"
  change_fns :: "callback list"
  prereq_fns :: "callback list"

text \<open>The loop of \<open>__init__\<close> over \<open>self.change\<close>, threading \<open>self.prereq\<close>.\<close>

fun init_prereq :: "(string \<times> int) list \<Rightarrow> (string, int) dict \<Rightarrow> error + (string, int) dict" where
  "init_prereq [] pr = Inr pr"
| "init_prereq ((k, v) # kvs) pr =
     (if k \<notin> set RESOURCE_TYPES then Inl AgricolaLogicError
      else init_prereq kvs
             (if v < 0
              then dict_set pr k ((case map_of pr k of None \<Rightarrow> 0 | Some x \<Rightarrow> x) - v)
              else pr))"

definition PlayerStateChange_init ::
  "string \<Rightarrow> (string, int) dict \<Rightarrow> (string, int) dict \<Rightarrow> callback list \<Rightarrow> callback list
     \<Rightarrow> error + PlayerStateChange" where
  "PlayerStateChange_init descr chg pre cfns pfns =
     (case init_prereq chg pre of
        Inl e \<Rightarrow> Inl e
      | Inr pr \<Rightarrow>
          Inr \<lparr>description = descr, change = chg, prereq = pr,
               change_fns = cfns, prereq_fns = pfns\<rparr>)"

text \<open>
  A method of the player returns \<open>(None, p')\<close> when it returns normally and
  \<open>(Some e, p')\<close> when it raises \<open>e\<close>; \<open>p'\<close> is the player as the call left it.
\<close>

text \<open>
  \<open>_error_message(player)\<close> builds the text of the exception from \<open>getattr(player, k)\<close>
  for every key of \<open>prereq\<close>, so it raises where one of these reads raises; the text
  itself is not modelled. \<open>check_prereq player pairs kvs\<close> is the first loop of
  \<open>check_and_apply\<close> with \<open>kvs\<close> still to be checked; \<open>pairs\<close> is the whole of
  \<open>self.prereq\<close>, which the message is built from.
\<close>

fun error_message :: "Player \<Rightarrow> (string \<times> int) list \<Rightarrow> error option" where
  "error_message player [] = None"
| "error_message player ((k, v) # pairs) =
     (case getattr player k of
        Inl e \<Rightarrow> Some e
      | Inr a \<Rightarrow> error_message player pairs)"

fun check_prereq ::
  "Player \<Rightarrow> (string \<times> int) list \<Rightarrow> (string \<times> int) list \<Rightarrow> error option" where
  "check_prereq player pairs [] = None"
| "check_prereq player pairs ((k, v) # kvs) =
     (case getattr player k of
        Inl e \<Rightarrow> Some e
      | Inr ObjV \<Rightarrow> Some TypeError
      | Inr (IntV a) \<Rightarrow>
          if a < v
          then (case error_message player pairs of
                  Some e \<Rightarrow> Some e
                | None \<Rightarrow> Some AgricolaNotEnoughResources)
          else check_prereq player pairs kvs)"

fun apply_change :: "(string \<times> int) list \<Rightarrow> Player \<Rightarrow> error option \<times> Player" where
  "apply_change [] player = (None, player)"
| "apply_change ((k, v) # kvs) player =
     (case getattr player k of
        Inl e \<Rightarrow> (Some e, player)
      | Inr ObjV \<Rightarrow> (Some TypeError, player)
      | Inr (IntV a) \<Rightarrow>
          (case setattr player k (v + a) of
             Inl e \<Rightarrow> (Some e, player)
           | Inr player' \<Rightarrow> apply_change kvs player'))"

definition check_and_apply :: "PlayerStateChange \<Rightarrow> Player \<Rightarrow> error option \<times> Player" where
  "check_and_apply sc player =
     (case check_prereq player (prereq sc) (prereq sc) of
        Some e \<Rightarrow> (Some e, player)
      | None \<Rightarrow>
          if prereq_fns sc \<noteq> [] then (Some AttributeError, player)
          else (case apply_change (change sc) player of
                  (Some e, player') \<Rightarrow> (Some e, player')
                | (None, player') \<Rightarrow>
                    if change_fns sc \<noteq> [] then (Some AttributeError, player')
                    else (None, player')))"

subsection \<open>Placement checks\<close>

definition occupied :: "Player \<Rightarrow> (string, cell list list) dict" where
  "occupied p =
     [(''room'', map Room_spaces (rooms_objs p)),
      (''pasture'', map spaces (occupied_pasture p)),
      (''stable'', map Stable_spaces (stables_objs p)),
      (''field'', map Field_spaces (fields_objs p))]"

text \<open>
  \<open>_check_spatial_objects(objects, name, omit)\<close>; \<open>objects\<close> is the list of the objects'
  \<open>spaces\<close>, and \<open>name\<close> only feeds the messages.
\<close>

definition check_spatial_objects :: "Player \<Rightarrow> cell list list \<Rightarrow> string list \<Rightarrow> error option" where
  "check_spatial_objects p objects omit =
     (let spaces = concat objects
      in if list_ex (\<lambda>s. index_check s (shape p) \<noteq> None) spaces then Some IndexError
         else if list_ex (\<lambda>(k, v). v > 1) (Counter spaces) then Some AgricolaImpossible
         else if list_ex (\<lambda>(object_type, objs).
                     object_type \<notin> set omit \<and>
                     list_ex (\<lambda>space. list_ex (\<lambda>ob. space \<in> set ob) objs) spaces)
                   (occupied p)
         then Some AgricolaImpossible
         else None)"

subsection \<open>The constructor\<close>

text \<open>
  The keyword arguments of \<open>Player(...)\<close> that the board depends on. \<open>arg_amounts\<close>
  gives the ten amounts \<open>food\<close> ... \<open>veg\<close>, \<open>sheep\<close>, \<open>boar\<close>, \<open>cattle\<close> by name. While
  the constructor runs, \<open>occupied\<close> has no entry yet for the kinds still to be checked;
  an entry that is an empty list behaves the same.
\<close>

record Player_args =
  arg_shape :: "(int \<times> int) option"
  arg_house_type :: string
  arg_rooms :: "Room list option"
  arg_fields :: "Field list"
  arg_stables :: "Stable list"
  arg_pastures :: "Pasture list"
  arg_amounts :: "string \<Rightarrow> int"
  arg_people :: int
  arg_people_avail :: int
  arg_fences_avail :: int
  arg_stables_avail :: int

definition default_args :: Player_args where
  "default_args =
     \<lparr>arg_shape = None, arg_house_type = ''wood'', arg_rooms = None, arg_fields = [],
      arg_stables = [], arg_pastures = [], arg_amounts = (\<lambda>_. 0), arg_people = 2,
      arg_people_avail = 3, arg_fences_avail = 15, arg_stables_avail = 4\<rparr>"

definition Player_init :: "Player_args \<Rightarrow> error + Player" where
  "Player_init a =
     (let rs = (case arg_rooms a of None \<Rightarrow> [Room (0, 0), Room (0, 1)] | Some r \<Rightarrow> r);
          p0 = \<lparr>shape = (case arg_shape a of None \<Rightarrow> (3, 5) | Some sh \<Rightarrow> sh),
                house_type = arg_house_type a,
                resources = arg_amounts a, animals = arg_amounts a, attrs = Map.empty,
                people = arg_people a, people_avail = arg_people_avail a,
                fences_avail = arg_fences_avail a, stables_avail = arg_stables_avail a,
                rooms_objs = [], pastures_objs = [], stables_objs = [], fields_objs = [],
                occupied_pasture = []\<rparr>
      in case check_spatial_objects p0 (map Room_spaces rs) [] of
           Some e \<Rightarrow> Inl e
         | None \<Rightarrow>
       (case check_connected_group (map Room_spaces rs) of
           Some e \<Rightarrow> Inl e
         | None \<Rightarrow>
       (let p1 = p0\<lparr>rooms_objs := rs\<rparr>
        in case check_spatial_objects p1 (map spaces (arg_pastures a)) [''stable''] of
             Some e \<Rightarrow> Inl e
           | None \<Rightarrow>
         (case check_connected_group (map spaces (arg_pastures a)) of
             Some e \<Rightarrow> Inl e
           | None \<Rightarrow>
         (let p2 = p1\<lparr>pastures_objs := arg_pastures a, occupied_pasture := arg_pastures a\<rparr>
          in case check_spatial_objects p2 (map Stable_spaces (arg_stables a)) [''pasture''] of
               Some e \<Rightarrow> Inl e
             | None \<Rightarrow>
           (let p3 = p2\<lparr>stables_objs := arg_stables a\<rparr>
            in case check_spatial_objects p3 (map Field_spaces (arg_fields a)) [] of
                 Some e \<Rightarrow> Inl e
               | None \<Rightarrow>
             (case check_connected_group (map Field_spaces (arg_fields a)) of
                 Some e \<Rightarrow> Inl e
               | None \<Rightarrow> Inr (p3\<lparr>fields_objs := arg_fields a\<rparr>))))))))"

subsection \<open>Operations\<close>

definition add_people :: "int \<Rightarrow> Player \<Rightarrow> error option \<times> Player" where
  "add_people n p =
     (if people_avail p < n then (Some AgricolaImpossible, p)
      else (None, p\<lparr>people := people p + n, people_avail := people_avail p - n\<rparr>))"

definition change_state ::
  "string \<Rightarrow> (string, int) dict \<Rightarrow> (string, int) dict \<Rightarrow> Player \<Rightarrow> error option \<times> Player" where
  "change_state descr chg pre p =
     (case PlayerStateChange_init descr chg pre [] [] of
        Inl e \<Rightarrow> (Some e, p)
      | Inr state_change \<Rightarrow> check_and_apply state_change p)"

text \<open>
  The operations below build their \<open>PlayerStateChange\<close> and call its \<open>check_and_apply\<close>
  in two statements that are the body of \<open>change_state\<close>; the model calls
  \<open>change_state\<close> for them. Descriptions only feed the messages.
\<close>

definition add_resources :: "(string, int) dict \<Rightarrow> Player \<Rightarrow> error option \<times> Player" where
  "add_resources rs p =
     (if list_ex (\<lambda>(r, amount). r \<notin> set RESOURCE_KEYS) rs then (Some AgricolaPoorlyFormed, p)
      else change_state ''Adding resources '' rs [] p)"

definition build_rooms :: "cell list \<Rightarrow> Player \<Rightarrow> error option \<times> Player" where
  "build_rooms spcs p =
     (let new = map Room spcs
      in case check_spatial_objects p (map Room_spaces new) [] of
           Some e \<Rightarrow> (Some e, p)
         | None \<Rightarrow>
       (case check_connected_group (map Room_spaces (rooms_objs p @ new)) of
           Some e \<Rightarrow> (Some e, p)
         | None \<Rightarrow>
       (let n_rooms = int (length spcs);
            chg = dict_of [(house_type p, - room_cost * n_rooms), (''reed'', - 2 * n_rooms)]
        in case change_state ''Building rooms'' chg [] p of
             (Some e, p') \<Rightarrow> (Some e, p')
           | (None, p') \<Rightarrow> (None, p'\<lparr>rooms_objs := rooms_objs p' @ new\<rparr>))))"

text \<open>Each new pasture goes through \<open>_check_spatial_objects\<close> on its own.\<close>

definition build_pastures :: "cell list list \<Rightarrow> Player \<Rightarrow> error option \<times> Player" where
  "build_pastures args p =
     (case map_err Pasture_init args of
        Inl e \<Rightarrow> (Some e, p)
      | Inr new \<Rightarrow>
       (case first_error (map (\<lambda>pa. check_spatial_objects p [spaces pa] [''stable'']) new) of
           Some e \<Rightarrow> (Some e, p)
         | None \<Rightarrow>
       (case check_connected_group (map spaces (pastures_objs p @ new)) of
           Some e \<Rightarrow> (Some e, p)
         | None \<Rightarrow>
       (let existing_fences = fences_for_pasture_group (pastures_objs p);
            new_fences = filter (\<lambda>f. f \<notin> set existing_fences) (fences_for_pasture_group new);
            n_fences = int (length new_fences);
            chg = dict_of [(''wood'', - n_fences), (''fences_avail'', - n_fences)]
        in case change_state ''Building pastures'' chg [] p of
             (Some e, p') \<Rightarrow> (Some e, p')
           | (None, p') \<Rightarrow> (None, p'\<lparr>pastures_objs := pastures_objs p' @ new\<rparr>)))))"

definition build_stables :: "cell list \<Rightarrow> int \<Rightarrow> Player \<Rightarrow> error option \<times> Player" where
  "build_stables spcs unit_cost p =
     (if spcs = [] then (Some IndexError, p)
      else
       (let new = map Stable spcs
        in case check_spatial_objects p (map Stable_spaces new) [''pasture''] of
             Some e \<Rightarrow> (Some e, p)
           | None \<Rightarrow>
         (case check_connected_group (map Stable_spaces (stables_objs p @ new)) of
             Some e \<Rightarrow> (Some e, p)
           | None \<Rightarrow>
         (let n_stables = int (length spcs);
              chg = dict_of [(''wood'', - unit_cost * n_stables), (''stables_avail'', - n_stables)]
          in case change_state ''Building stables'' chg [] p of
               (Some e, p') \<Rightarrow> (Some e, p')
             | (None, p') \<Rightarrow> (None, p'\<lparr>stables_objs := stables_objs p' @ new\<rparr>)))))"

definition plow_fields :: "cell list \<Rightarrow> Player \<Rightarrow> error option \<times> Player" where
  "plow_fields spcs p =
     (if spcs = [] then (Some IndexError, p)
      else
       (case map_err (\<lambda>s. Field_init s 0 None) spcs of
          Inl e \<Rightarrow> (Some e, p)
        | Inr new \<Rightarrow>
         (case check_spatial_objects p (map Field_spaces new) [] of
             Some e \<Rightarrow> (Some e, p)
           | None \<Rightarrow>
         (case check_connected_group (map Field_spaces (fields_objs p @ new)) of
             Some e \<Rightarrow> (Some e, p)
           | None \<Rightarrow> (None, p\<lparr>fields_objs := fields_objs p @ new\<rparr>)))))"

text \<open>
  \<open>_check_animal_capacity\<close> reads \<open>self.n_free_stables\<close>, a name outside the properties
  and dicts of the player, through \<open>getattr\<close>. The pastures' capacities are computed
  when the list is extended, before the solver runs.
\<close>

definition check_animal_capacity :: "Player \<Rightarrow> int list \<Rightarrow> error option" where
  "check_animal_capacity p animal_counts =
     (let animal_counts = sort animal_counts
      in case getattr p ''n_free_stables'' of
           Inl e \<Rightarrow> Some e
         | Inr ObjV \<Rightarrow> Some TypeError
         | Inr (IntV n) \<Rightarrow>
             (case map_err Pasture_capacity (pastures_objs p) of
                Inl e \<Rightarrow> Some e
              | Inr caps \<Rightarrow>
                  (let capacities = replicate (nat (n + 1)) 1 @ caps;
                       multiset = Counter capacities
                   in if \<not> multiset_satisfy (sort animal_counts) multiset
                      then Some AgricolaNotEnoughResources else None)))"

text \<open>\<open>add_animals(**animals)\<close>: the keyword arguments in call order.\<close>

fun add_animals :: "(string \<times> int) list \<Rightarrow> Player \<Rightarrow> error option \<times> Player" where
  "add_animals [] p = (None, p)"
| "add_animals ((animal, cnt) # rest) p =
     (if animal \<notin> set ANIMALS then (Some AgricolaPoorlyFormed, p)
      else
       (let animal_counts = (animals p)(animal := animals p animal + cnt)
        in case check_animal_capacity p (map animal_counts ANIMALS) of
             Some e \<Rightarrow> (Some e, p)
           | None \<Rightarrow> add_animals rest (p\<lparr>animals := animal_counts\<rparr>)))"

text \<open>
  The generator \<open>(f for f in self._fields if f.is_empty())\<close> walks the field list once.
  Its state is the split of the list into the fields it has passed and those still to
  come; \<open>gen_next\<close> advances it to the next empty field. A field is planted in place
  after the generator has yielded it.
\<close>

fun gen_next :: "Field list \<Rightarrow> (Field list \<times> Field \<times> Field list) option" where
  "gen_next [] = None"
| "gen_next (f # fs) =
     (if is_empty f then Some ([], f, fs)
      else (case gen_next fs of
              None \<Rightarrow> None
            | Some (skipped, g, rest) \<Rightarrow> Some (f # skipped, g, rest)))"

fun plant_loop ::
  "nat \<Rightarrow> (Field \<Rightarrow> error + Field) \<Rightarrow> Field list \<Rightarrow> Field list
     \<Rightarrow> error option \<times> Field list \<times> Field list" where
  "plant_loop 0 plant passed todo = (None, passed, todo)"
| "plant_loop (Suc n) plant passed todo =
     (case gen_next todo of
        None \<Rightarrow> (Some StopIteration, passed @ todo, [])
      | Some (skipped, f, rest) \<Rightarrow>
          (case plant f of
             Inl e \<Rightarrow> (Some e, passed @ skipped @ [f], rest)
           | Inr f' \<Rightarrow> plant_loop n plant (passed @ skipped @ [f']) rest))"

definition sow :: "int \<Rightarrow> int \<Rightarrow> Player \<Rightarrow> error option \<times> Player" where
  "sow n_grain n_veg p =
     (let chg = dict_of [(''grain'', - n_grain), (''veg'', - n_veg)];
          pre = dict_of [(''empty_fields'', n_grain + n_veg)]
      in case change_state ''Sowing grain and veg'' chg pre p of
           (Some e, p') \<Rightarrow> (Some e, p')
         | (None, p') \<Rightarrow>
             (case plant_loop (nat n_grain) plant_grain [] (fields_objs p') of
                (Some e, passed, todo) \<Rightarrow> (Some e, p'\<lparr>fields_objs := passed @ todo\<rparr>)
              | (None, passed, todo) \<Rightarrow>
                  (case plant_loop (nat n_veg) plant_veg passed todo of
                     (r, passed', todo') \<Rightarrow> (r, p'\<lparr>fields_objs := passed' @ todo'\<rparr>))))"

text \<open>
  \<open>bake_bread\<close> starts with \<open>len(self.bread_rates-1)\<close>: a list minus an integer, which
  Python refuses for every list and every integer. \<open>py_prefix\<close> is the slice \<open>xs[:n]\<close>.
\<close>

definition list_minus_int :: "int list \<Rightarrow> int \<Rightarrow> error + int list" where
  "list_minus_int xs k = Inl TypeError"

definition py_prefix :: "'a list \<Rightarrow> int \<Rightarrow> 'a list" where
  "py_prefix xs n = (if n < 0 then take (nat (int (length xs) + n)) xs else take (nat n) xs)"

definition bake_bread :: "int \<Rightarrow> Player \<Rightarrow> error option \<times> Player" where
  "bake_bread n p =
     (case list_minus_int bread_rates 1 of
        Inl e \<Rightarrow> (Some e, p)
      | Inr d \<Rightarrow>
          if n > int (length d) \<and> last bread_rates = 0 then (Some AgricolaPoorlyFormed, p)
          else
           (let rates = py_prefix (butlast bread_rates) n;
                n_left = max (n - int (length rates)) 0;
                rates = rates @ replicate (nat n_left) (last bread_rates);
                food = sum_list rates;
                chg = dict_of [(''grain'', - n), (''food'', food)]
            in change_state ''Baking bread'' chg [] p))"

text \<open>The loop of \<open>cook_food\<close> that builds \<open>change\<close> from \<open>counts\<close>.\<close>

fun cook_change :: "(string \<times> int) list \<Rightarrow> (string, int) dict \<Rightarrow> error + (string, int) dict" where
  "cook_change [] chg = Inr chg"
| "cook_change ((r, c) # rest) chg =
     (let chg1 = dict_set chg r (- c)
      in case map_of cooking_rates r of
           None \<Rightarrow> Inl KeyError
         | Some rate \<Rightarrow>
             (case map_of chg1 ''food'' of
                None \<Rightarrow> Inl KeyError
              | Some f \<Rightarrow> cook_change rest (dict_set chg1 ''food'' (f + rate))))"

definition cook_food :: "(string, int) dict \<Rightarrow> Player \<Rightarrow> error option \<times> Player" where
  "cook_food counts p =
     (case cook_change counts [(''food'', 0)] of
        Inl e \<Rightarrow> (Some e, p)
      | Inr chg \<Rightarrow> change_state ''Cooking food'' chg [] p)"

section \<open>Boards used in the scenarios\<close>

text \<open>
  \<open>board amounts\<close> is the player \<open>Player(name, ...)\<close> builds when only amounts are
  passed: shape \<open>(3, 5)\<close>, a wooden house of two rooms, nothing else placed.
\<close>

definition board :: "(string \<Rightarrow> int) \<Rightarrow> Player" where
  "board amounts =
     \<lparr>shape = (3, 5), house_type = ''wood'', resources = amounts, animals = amounts,
      attrs = Map.empty, people = 2, people_avail = 3, fences_avail = 15, stables_avail = 4,
      rooms_objs = [Room (0, 0), Room (0, 1)], pastures_objs = [], stables_objs = [],
      fields_objs = [], occupied_pasture = []\<rparr>"

section \<open>Notions used in the statements\<close>

text \<open>
  An operation is atomic when every call that raises leaves the player exactly as it
  found it.
\<close>

definition atomic :: "(Player \<Rightarrow> error option \<times> Player) \<Rightarrow> bool" where
  "atomic f = (\<forall>p e p'. f p = (Some e, p') \<longrightarrow> p' = p)"

text \<open>
  \<open>SETTABLE\<close> lists the names \<open>setattr\<close> can write among those a change may carry.
  \<open>ledger p r\<close> is the amount of \<open>r\<close> as \<open>getattr\<close> reports it.
\<close>

definition SETTABLE :: "string list" where
  "SETTABLE = RESOURCE_KEYS @ ANIMALS @ [''people'', ''people_avail'', ''fences_avail'', ''stables_avail'']"

definition ledger :: "Player \<Rightarrow> string \<Rightarrow> int" where
  "ledger p r = (case getattr p r of Inr (IntV a) \<Rightarrow> a | _ \<Rightarrow> 0)"

text \<open>
  A field is consistent when it has no items exactly when it has no kind: the spec's
  invariant of a field. \<open>Field.__init__\<close> enforces it for every kind but the empty
  string, and planting and harvesting keep it. \<open>plant_first n pl fs\<close> plants the first
  \<open>n\<close> empty fields of \<open>fs\<close> in list order; \<open>sown_fields g v\<close> plants grain on the first
  \<open>g\<close> empty fields and then veg on the next \<open>v\<close>.
\<close>

definition field_ok :: "Field \<Rightarrow> bool" where
  "field_ok f = ((n_items f = 0) = (kind f = None))"

definition planted :: "int \<Rightarrow> string \<Rightarrow> Field \<Rightarrow> Field" where
  "planted n k f = f\<lparr>n_items := n, kind := Some k\<rparr>"

fun plant_first :: "nat \<Rightarrow> (Field \<Rightarrow> Field) \<Rightarrow> Field list \<Rightarrow> Field list" where
  "plant_first 0 pl fs = fs"
| "plant_first (Suc n) pl [] = []"
| "plant_first (Suc n) pl (f # fs) =
     (if is_empty f then pl f # plant_first n pl fs else f # plant_first (Suc n) pl fs)"

definition sown_fields :: "nat \<Rightarrow> nat \<Rightarrow> Field list \<Rightarrow> Field list" where
  "sown_fields g v fs = plant_first v (planted 2 ''veg'') (plant_first g (planted 3 ''grain'') fs)"

text \<open>
  The boards of the sowing scenario: the fresh board with one grain and one veg, the same
  after \<open>plow_fields([(1,0),(1,1)])\<close>, and after \<open>sow(1, 1)\<close>.
\<close>

definition sow_board0 :: Player where
  "sow_board0 = board ((\<lambda>_. 0)(''grain'' := 1, ''veg'' := 1))"

definition sow_board1 :: Player where
  "sow_board1 = sow_board0\<lparr>fields_objs :=
     [\<lparr>space = (1, 0), n_items = 0, kind = None\<rparr>, \<lparr>space = (1, 1), n_items = 0, kind = None\<rparr>]\<rparr>"

definition sow_board2 :: Player where
  "sow_board2 = sow_board1\<lparr>attrs := [''grain'' \<mapsto> 0, ''veg'' \<mapsto> 0], fields_objs :=
     [\<lparr>space = (1, 0), n_items = 3, kind = Some ''grain''\<rparr>,
      \<lparr>space = (1, 1), n_items = 2, kind = Some ''veg''\<rparr>]\<rparr>"

text \<open>The fresh board with 5 wood.\<close>

definition rooms_board :: Player where
  "rooms_board = board ((\<lambda>_. 0)(''wood'' := 5))"

text \<open>
  The boards of the overlap scenario: the fresh board with 4 wood, the same after
  \<open>build_pastures([[(1,0)]])\<close>, and after \<open>plow_fields([(1,0)])\<close>.
\<close>

definition pasture_board0 :: Player where
  "pasture_board0 = board ((\<lambda>_. 0)(''wood'' := 4))"

definition pasture_board1 :: Player where
  "pasture_board1 = pasture_board0\<lparr>attrs := [''wood'' \<mapsto> 0], fences_avail := 11,
     pastures_objs := [\<lparr>spaces = [(1, 0)], n_stables = 0,
        fences = [((1, 0), (1, 1)), ((1, 1), (2, 1)), ((2, 0), (2, 1)), ((1, 0), (2, 0))]\<rparr>]\<rparr>"

definition pasture_board2 :: Player where
  "pasture_board2 = pasture_board1\<lparr>fields_objs := [\<lparr>space = (1, 0), n_items = 0, kind = None\<rparr>]\<rparr>"

text \<open>
  The tracked goods and animals of the ledger, and the ledger invariant. A sequence of
  transactions is a list of \<open>change_state(description, change, prereq)\<close> calls;
  \<open>run_changes\<close> gives the player after each call, or \<open>None\<close> when a call raises.
\<close>

definition TRACKED :: "string list" where
  "TRACKED = [''food'', ''wood'', ''clay'', ''stone'', ''reed'', ''grain'', ''veg'',
              ''sheep'', ''boar'', ''cattle'']"

definition ledger_nonneg :: "Player \<Rightarrow> bool" where
  "ledger_nonneg p = list_all (\<lambda>r. 0 \<le> ledger p r) TRACKED"

fun run_changes ::
  "(string \<times> (string, int) dict \<times> (string, int) dict) list \<Rightarrow> Player \<Rightarrow> Player list option" where
  "run_changes [] p = Some []"
| "run_changes ((d, chg, pre) # ts) p =
     (case change_state d chg pre p of
        (Some e, p') \<Rightarrow> None
      | (None, p') \<Rightarrow>
          (case run_changes ts p' of None \<Rightarrow> None | Some ps \<Rightarrow> Some (p' # ps)))"

text \<open>
  A change is a dict, so its keys are distinct; \<open>explicit_nonneg\<close> says that for every
  tracked resource the change lowers, the explicit prerequisite \<open>prereq.get(k, 0)\<close> is
  not negative.
\<close>

definition explicit_nonneg :: "string \<times> (string, int) dict \<times> (string, int) dict \<Rightarrow> bool" where
  "explicit_nonneg t =
     (case t of (d, chg, pre) \<Rightarrow>
        distinct (map fst chg) \<and>
        list_all (\<lambda>(k, v). v < 0 \<and> k \<in> set TRACKED \<longrightarrow>
                    0 \<le> (case map_of pre k of None \<Rightarrow> 0 | Some x \<Rightarrow> x)) chg)"

text \<open>
  Orthogonal adjacency in the spec's words: exactly one coordinate differs, and it
  differs by 1. Orthogonal connectivity of a set of cells, stated without the search:
  any two cells of the set are joined by a chain of orthogonally adjacent cells of the
  set.
\<close>

definition orthogonally_adjacent :: "cell \<Rightarrow> cell \<Rightarrow> bool" where
  "orthogonally_adjacent a b =
     ((fst a = fst b \<and> \<bar>snd a - snd b\<bar> = 1) \<or> (snd a = snd b \<and> \<bar>fst a - fst b\<bar> = 1))"

definition adj_on :: "cell set \<Rightarrow> (cell \<times> cell) set" where
  "adj_on S = {(a, b). a \<in> S \<and> b \<in> S \<and> orthogonally_adjacent a b}"

definition orthog_connected :: "cell set \<Rightarrow> bool" where
  "orthog_connected S = (\<forall>a\<in>S. \<forall>b\<in>S. (a, b) \<in> (adj_on S)\<^sup>*)"

definition stable_spaces :: "Player \<Rightarrow> cell list" where
  "stable_spaces p = concat (map Stable_spaces (stables_objs p))"

text \<open>
  The solver's acceptance criterion in the spec's words. A capacity multiset is held by
  the code as a dict from capacity to multiplicity (\<^verbatim>\<open>Counter(capacities)\<close>): its keys are
  distinct, and capacities and multiplicities are not negative. \<open>mset_of\<close> reads
  such a dict as the multiset it stands for.
\<close>

definition mset_of :: "(int, int) dict \<Rightarrow> int multiset" where
  "mset_of d = sum_list (map (\<lambda>(k, v). replicate_mset (nat v) k) d)"

definition capacity_multiset :: "(int, int) dict \<Rightarrow> bool" where
  "capacity_multiset d = (distinct (map fst d) \<and> list_all (\<lambda>(k, v). 0 \<le> k \<and> 0 \<le> v) d)"

text \<open>
  \<open>can_split gs C\<close>: there are sub-multisets \<open>Ps\<close>, one per requirement, that together
  use every capacity unit of \<open>C\<close> at most once, and a bijection \<open>\<pi>\<close> assigning to every
  requirement a part of total weight at least that requirement.
\<close>

definition can_split :: "int list \<Rightarrow> int multiset \<Rightarrow> bool" where
  "can_split gs C =
     (\<exists>Ps. length Ps = length gs \<and> sum_list Ps \<subseteq># C \<and>
        (\<exists>\<pi>. bij_betw \<pi> {..<length gs} {..<length gs} \<and>
           (\<forall>i<length gs. gs ! i \<le> sum_mset (Ps ! \<pi> i))))"

text \<open>
  Two notions used in the proof: \<open>sub_dict d s\<close> says that \<open>s\<close> is one of the
  sub-multisets the solver's loop enumerates (same keys as \<open>d\<close>, every count between 0
  and the count in \<open>d\<close>), and \<open>split_in_order\<close> is the splitting problem with the
  parts taken in the order of the requirements.
\<close>

definition sub_dict :: "(int, int) dict \<Rightarrow> (int, int) dict \<Rightarrow> bool" where
  "sub_dict d s =
     (map fst s = map fst d \<and> list_all2 (\<lambda>(k, v) (k', c). 0 \<le> c \<and> c \<le> v) d s)"

primrec split_in_order :: "int list \<Rightarrow> int multiset \<Rightarrow> bool" where
  "split_in_order [] C = True"
| "split_in_order (g # gs) C =
     (\<exists>Q. Q \<subseteq># C \<and> g \<le> sum_mset Q \<and> split_in_order gs (C - Q))"

section \<open>Evaluation on concrete boards\<close>

lemma reach_unfold:
  "reach nodes edges vis =
     (if filter (\<lambda>n. n \<notin> set vis \<and> neighbours edges vis n) nodes = [] then vis
      else reach nodes edges
             (vis @ filter (\<lambda>n. n \<notin> set vis \<and> neighbours edges vis n) nodes))"
  by (subst reach.simps) (simp add: Let_def)

lemmas eval_defs =
  check_spatial_objects_def check_connected_group_def graph_of_def add_nodes_from_def
  is_connected_def neighbours_def orthog_adjacent_def index_check_def Counter_def
  occupied_def Field_spaces_def Let_def

lemma Player_init_default:
  "Player_init (default_args\<lparr>arg_amounts := amounts\<rparr>) = Inr (board amounts)"
  by (simp add: Player_init_def default_args_def board_def eval_defs reach_unfold)

section \<open>The capacity solver on the example of the spec\<close>

text \<open>
  C4 (amended). On the capacity multiset \<open>{1, 1, 2}\<close> the solver accepts the requirement
  lists \<open>[1, 1]\<close> and \<open>[3]\<close>, and it accepts \<open>[2, 2]\<close> as well: the parts \<open>{2}\<close> and
  \<open>{1, 1}\<close> both weigh 2.
\<close>

theorem multiset_satisfy_examples:
  "multiset_satisfy [1, 1] (Counter [1, 1, 2]) \<and>
   multiset_satisfy [3] (Counter [1, 1, 2]) \<and>
   multiset_satisfy [2, 2] (Counter [1, 1, 2])"
  by code_simp

text \<open>The claim as the spec words it, with \<open>[2, 2]\<close> unsatisfiable, is false.\<close>

theorem multiset_satisfy_examples_counterexample:
  "\<not> (multiset_satisfy [1, 1] (Counter [1, 1, 2]) \<and>
      multiset_satisfy [3] (Counter [1, 1, 2]) \<and>
      \<not> multiset_satisfy [2, 2] (Counter [1, 1, 2]))"
  by code_simp

section \<open>Capacities\<close>

text \<open>
  C6 (the code at any pasture). \<open>Pasture.capacity()\<close> reads \<open>self.n_spaces\<close>, an
  attribute no pasture has, so the call raises \<open>AttributeError\<close> instead of returning
  \<open>|spaces| * 2^n_stables\<close>. \<open>Stable.capacity()\<close> is 1.
\<close>

theorem Pasture_capacity_raises:
  "Pasture_capacity p = Inl AttributeError \<and> Stable_capacity s = 1"
  by (cases s) (simp add: Pasture_capacity_def Pasture_int_attr_def)

text \<open>
  C7 (the code on the fresh board). With no stable and no pasture,
  \<open>add_animals(sheep=1)\<close> raises \<open>AttributeError\<close> at \<open>self.n_free_stables\<close> and leaves
  the player as it was; the solver is never reached.
\<close>

theorem add_animals_fresh_raises:
  "Player_init default_args = Inr (board (\<lambda>_. 0)) \<and>
   add_animals [(''sheep'', 1)] (board (\<lambda>_. 0)) = (Some AttributeError, board (\<lambda>_. 0))"
proof -
  have "Player_init (default_args\<lparr>arg_amounts := (\<lambda>_. 0)\<rparr>) = Inr (board (\<lambda>_. 0))"
    by (rule Player_init_default)
  moreover have "default_args\<lparr>arg_amounts := (\<lambda>_. 0)\<rparr> = default_args"
    by (simp add: default_args_def)
  moreover have "add_animals [(''sheep'', 1)] (board (\<lambda>_. 0))
      = (Some AttributeError, board (\<lambda>_. 0))"
    by (simp add: ANIMALS_def check_animal_capacity_def getattr_def PROPERTIES_def
        RESOURCE_KEYS_def OBJECT_ATTRIBUTES_def board_def)
  ultimately show ?thesis by simp
qed

section \<open>Baking bread\<close>

text \<open>
  C9 (the code at any input). \<open>bake_bread(n)\<close> raises \<open>TypeError\<close> for every \<open>n\<close> and
  every player, at \<open>self.bread_rates-1\<close>; no grain is deducted and no food added.
\<close>

theorem bake_bread_raises:
  "bake_bread n p = (Some TypeError, p)"
  by (simp add: bake_bread_def list_minus_int_def)

section \<open>The transaction engine leaves the player unchanged on failure\<close>

lemma getattr_settable:
  "k \<in> set SETTABLE \<Longrightarrow> \<exists>a. getattr p k = Inr (IntV a)"
  by (auto simp: SETTABLE_def RESOURCE_KEYS_def ANIMALS_def getattr_def PROPERTIES_def)

lemma settable_not_property: "k \<in> set SETTABLE \<Longrightarrow> k \<notin> set PROPERTIES"
  by (auto simp: SETTABLE_def RESOURCE_KEYS_def ANIMALS_def PROPERTIES_def)

lemma setattr_not_property:
  "k \<notin> set PROPERTIES \<Longrightarrow> setattr p k v = Inr (projr (setattr p k v))"
  by (simp add: setattr_def)

lemma setattr_settable:
  "k \<in> set SETTABLE \<Longrightarrow> \<exists>p'. setattr p k v = Inr p'"
  using setattr_not_property [OF settable_not_property] by blast

lemma apply_change_settable:
  "set (map fst kvs) \<subseteq> set SETTABLE \<Longrightarrow> fst (apply_change kvs p) = None"
proof (induction kvs arbitrary: p)
  case Nil
  then show ?case by simp
next
  case (Cons kv kvs)
  obtain k v where kv: "kv = (k, v)" by (cases kv)
  from Cons.prems kv have k: "k \<in> set SETTABLE" by simp
  from getattr_settable [OF k] obtain a where a: "getattr p k = Inr (IntV a)" by blast
  from setattr_settable [OF k] obtain p' where p': "setattr p k (v + a) = Inr p'" by blast
  from Cons.prems have "set (map fst kvs) \<subseteq> set SETTABLE" by simp
  from Cons.IH [OF this] show ?case by (simp add: kv a p')
qed

lemma apply_change_atomic:
  assumes "set (map fst (tl kvs)) \<subseteq> set SETTABLE" and "apply_change kvs p = (Some e, p')"
  shows "p' = p"
proof (cases kvs)
  case Nil
  with assms show ?thesis by simp
next
  case (Cons kv rest)
  obtain k v where kv: "kv = (k, v)" by (cases kv)
  from assms(1) Cons have rest: "set (map fst rest) \<subseteq> set SETTABLE" by simp
  have none: "\<And>q. fst (apply_change rest q) = None" using apply_change_settable [OF rest] .
  show ?thesis
  proof (cases "getattr p k")
    case (Inl x)
    with assms(2) Cons kv show ?thesis by simp
  next
    case (Inr val)
    show ?thesis
    proof (cases val)
      case ObjV
      with Inr assms(2) Cons kv show ?thesis by simp
    next
      case (IntV a)
      show ?thesis
      proof (cases "setattr p k (v + a)")
        case (Inl x)
        with IntV Inr assms(2) Cons kv show ?thesis by simp
      next
        case (Inr q)
        with IntV \<open>getattr p k = Inr val\<close> assms(2) Cons kv
        have "apply_change rest q = (Some e, p')" by simp
        with none [of q] show ?thesis by simp
      qed
    qed
  qed
qed

lemma check_and_apply_atomic:
  assumes "set (map fst (tl (change sc))) \<subseteq> set SETTABLE" and "change_fns sc = []"
    and "check_and_apply sc p = (Some e, p')"
  shows "p' = p"
proof (cases "check_prereq p (prereq sc) (prereq sc)")
  case (Some x)
  with assms(3) show ?thesis by (simp add: check_and_apply_def)
next
  case None
  show ?thesis
  proof (cases "prereq_fns sc = []")
    case False
    with None assms(3) show ?thesis by (simp add: check_and_apply_def)
  next
    case True
    obtain r q where rq: "apply_change (change sc) p = (r, q)" by (cases "apply_change (change sc) p")
    show ?thesis
    proof (cases r)
      case None
      with rq \<open>check_prereq p (prereq sc) (prereq sc) = None\<close> True assms(2,3) show ?thesis
        by (simp add: check_and_apply_def)
    next
      case (Some x)
      with rq apply_change_atomic [OF assms(1), of p x q] have "q = p" by simp
      with Some rq \<open>check_prereq p (prereq sc) (prereq sc) = None\<close> True assms(3) show ?thesis
        by (simp add: check_and_apply_def)
    qed
  qed
qed

lemma change_state_atomic:
  assumes "set (map fst (tl chg)) \<subseteq> set SETTABLE" and "change_state d chg pre p = (Some e, p')"
  shows "p' = p"
proof (cases "init_prereq chg pre")
  case (Inl x)
  with assms(2) show ?thesis by (simp add: change_state_def PlayerStateChange_init_def)
next
  case (Inr pr)
  with assms(2) have "check_and_apply \<lparr>description = d, change = chg, prereq = pr,
               change_fns = [], prereq_fns = []\<rparr> p = (Some e, p')"
    by (simp add: change_state_def PlayerStateChange_init_def)
  from check_and_apply_atomic [OF _ _ this] assms(1) show ?thesis by simp
qed

lemma dict_of_pair:
  "dict_of [(k1, v1), (k2, v2)] = (if k1 = k2 then [(k2, v2)] else [(k1, v1), (k2, v2)])"
  by (simp add: dict_of_def)

lemma pair_tail_settable:
  "k2 \<in> set SETTABLE \<Longrightarrow> set (map fst (tl (dict_of [(k1, v1), (k2, v2)]))) \<subseteq> set SETTABLE"
  by (simp add: dict_of_pair)

lemma settable_names:
  "''reed'' \<in> set SETTABLE" "''fences_avail'' \<in> set SETTABLE" "''stables_avail'' \<in> set SETTABLE"
  "''veg'' \<in> set SETTABLE"
  by (simp_all add: SETTABLE_def RESOURCE_KEYS_def)

lemma build_rooms_atomic: "atomic (build_rooms spcs)"
  unfolding atomic_def
proof (intro allI impI)
  fix p e p'
  assume a: "build_rooms spcs p = (Some e, p')"
  note t = change_state_atomic [OF pair_tail_settable [OF settable_names(1)]]
  from a show "p' = p"
    by (auto simp: build_rooms_def Let_def split: option.splits prod.splits dest: t)
qed

lemma build_pastures_atomic: "atomic (build_pastures args)"
  unfolding atomic_def
proof (intro allI impI)
  fix p e p'
  assume a: "build_pastures args p = (Some e, p')"
  note t = change_state_atomic [OF pair_tail_settable [OF settable_names(2)]]
  from a show "p' = p"
    by (auto simp: build_pastures_def Let_def split: option.splits prod.splits sum.splits dest: t)
qed

lemma build_stables_atomic: "atomic (build_stables spcs cost)"
  unfolding atomic_def
proof (intro allI impI)
  fix p e p'
  assume a: "build_stables spcs cost p = (Some e, p')"
  note t = change_state_atomic [OF pair_tail_settable [OF settable_names(3)]]
  from a show "p' = p"
    by (auto simp: build_stables_def Let_def split: option.splits prod.splits sum.splits if_splits dest: t)
qed

lemma plow_fields_atomic: "atomic (plow_fields spcs)"
  by (auto simp: atomic_def plow_fields_def split: option.splits sum.splits if_splits)

lemma bake_bread_atomic: "atomic (bake_bread n)"
  by (simp add: atomic_def bake_bread_def list_minus_int_def)

lemma add_people_atomic: "atomic (add_people n)"
  by (auto simp: atomic_def add_people_def split: if_splits)

lemma check_animal_capacity_raises: "check_animal_capacity p cs = Some AttributeError"
  by (simp add: check_animal_capacity_def getattr_def PROPERTIES_def RESOURCE_KEYS_def ANIMALS_def
      OBJECT_ATTRIBUTES_def)

lemma add_animals_atomic: "atomic (add_animals as)"
  unfolding atomic_def
  by (cases as) (auto simp: check_animal_capacity_raises split: if_splits)

lemma map_fst_dict_set:
  "map fst (dict_set d k v) = (if k \<in> set (map fst d) then map fst d else map fst d @ [k])"
  by (induction d) force+

lemma keys_dict_set: "fst ` set (dict_set d k v) = insert k (fst ` set d)"
proof -
  have "set (map fst (dict_set d k v)) = insert k (set (map fst d))"
    by (auto simp: map_fst_dict_set)
  then show ?thesis by simp
qed

lemma cook_change_keys:
  "cook_change counts chg = Inr chg' \<Longrightarrow> fst ` set chg \<subseteq> set SETTABLE
     \<Longrightarrow> fst ` set chg' \<subseteq> set SETTABLE"
proof (induction counts arbitrary: chg)
  case Nil
  then show ?case by simp
next
  case (Cons rc counts)
  obtain r c where rc: "rc = (r, c)" by (cases rc)
  from Cons.prems(1) rc obtain rate f where
    rate: "map_of cooking_rates r = Some rate"
    and f: "map_of (dict_set chg r (- c)) ''food'' = Some f"
    and rest: "cook_change counts (dict_set (dict_set chg r (- c)) ''food'' (f + rate)) = Inr chg'"
    by (auto simp: Let_def split: option.splits)
  from rate have "r \<in> set SETTABLE"
    by (auto simp: cooking_rates_def SETTABLE_def RESOURCE_KEYS_def ANIMALS_def split: if_splits)
  moreover have "''food'' \<in> set SETTABLE"
    by (simp add: SETTABLE_def RESOURCE_KEYS_def)
  ultimately have "fst ` set (dict_set (dict_set chg r (- c)) ''food'' (f + rate)) \<subseteq> set SETTABLE"
    using Cons.prems(2) by (simp add: keys_dict_set)
  from Cons.IH [OF rest this] show ?case .
qed

lemma cook_food_atomic: "atomic (cook_food counts)"
  unfolding atomic_def
proof (intro allI impI)
  fix p e p'
  assume a: "cook_food counts p = (Some e, p')"
  show "p' = p"
  proof (cases "cook_change counts [(''food'', 0)]")
    case (Inl x)
    with a show ?thesis by (simp add: cook_food_def)
  next
    case (Inr chg)
    have "fst ` set [(''food'', 0::int)] \<subseteq> set SETTABLE"
      by (simp add: SETTABLE_def RESOURCE_KEYS_def)
    from cook_change_keys [OF Inr this] have "fst ` set chg \<subseteq> set SETTABLE" .
    then have "set (map fst (tl chg)) \<subseteq> set SETTABLE"
      by (cases chg) auto
    from change_state_atomic [OF this] a Inr show ?thesis
      by (simp add: cook_food_def)
  qed
qed

section \<open>Failures of sow\<close>

lemma gen_next_Some:
  "gen_next fs = Some (sk, f, rest) \<Longrightarrow>
     fs = sk @ f # rest \<and> is_empty f \<and> list_all (\<lambda>g. \<not> is_empty g) sk"
  by (induction fs arbitrary: sk) (auto split: if_splits option.splits)

lemma gen_next_None:
  "gen_next fs = None \<Longrightarrow> filter is_empty fs = []"
  by (induction fs) (auto split: if_splits option.splits)

lemma plant_loop_error:
  assumes "\<And>f. is_empty f \<Longrightarrow> \<exists>f'. plant f = Inr f'"
  shows "plant_loop n plant ps td = (Some e, ps', td') \<Longrightarrow> e = StopIteration"
proof (induction n arbitrary: ps td)
  case 0
  then show ?case by simp
next
  case (Suc n)
  show ?case
  proof (cases "gen_next td")
    case None
    with Suc.prems show ?thesis by simp
  next
    case (Some t)
    obtain sk f rest where t: "t = (sk, f, rest)" by (cases t)
    from gen_next_Some Some t have "is_empty f" by blast
    from assms [OF this] obtain f' where "plant f = Inr f'" by blast
    with Suc.prems Some t have "plant_loop n plant (ps @ sk @ [f']) rest = (Some e, ps', td')"
      by simp
    from Suc.IH [OF this] show ?thesis .
  qed
qed

lemma plant_grain_empty: "is_empty f \<Longrightarrow> \<exists>f'. plant_grain f = Inr f'"
  by (simp add: plant_grain_def)

lemma plant_veg_empty: "is_empty f \<Longrightarrow> \<exists>f'. plant_veg f = Inr f'"
  by (simp add: plant_veg_def)

lemma sow_error:
  assumes "sow g v p = (Some e, p')" and "e \<noteq> StopIteration"
  shows "p' = p"
proof -
  let ?cs = "change_state ''Sowing grain and veg'' (dict_of [(''grain'', - g), (''veg'', - v)])
      (dict_of [(''empty_fields'', g + v)]) p"
  obtain r q where rq: "?cs = (r, q)" by (cases ?cs)
  show ?thesis
  proof (cases r)
    case (Some x)
    from change_state_atomic [OF pair_tail_settable [OF settable_names(4)]] rq Some
    have "q = p" by blast
    with assms(1) rq Some show ?thesis by (simp add: sow_def Let_def)
  next
    case None
    obtain r1 ps td where l1: "plant_loop (nat g) plant_grain [] (fields_objs q) = (r1, ps, td)"
      by (cases "plant_loop (nat g) plant_grain [] (fields_objs q)") auto
    show ?thesis
    proof (cases r1)
      case (Some x)
      with plant_loop_error [where plant = plant_grain, OF plant_grain_empty] l1 have "x = StopIteration" by blast
      with assms rq None l1 Some show ?thesis by (simp add: sow_def Let_def)
    next
      case None2: None
      obtain r2 ps2 td2 where l2: "plant_loop (nat v) plant_veg ps td = (r2, ps2, td2)"
        by (cases "plant_loop (nat v) plant_veg ps td") auto
      with assms(1) rq None l1 None2 have "r2 = Some e" by (simp add: sow_def Let_def)
      with plant_loop_error [where plant = plant_veg, OF plant_veg_empty] l2 have "e = StopIteration" by blast
      with assms(2) show ?thesis by simp
    qed
  qed
qed

section \<open>Reading and writing the ledger by name\<close>

lemma resource_key_plain:
  "r \<in> set RESOURCE_KEYS \<Longrightarrow>
     r \<notin> set PROPERTIES \<and> r \<noteq> ''people'' \<and> r \<noteq> ''people_avail'' \<and>
     r \<noteq> ''fences_avail'' \<and> r \<noteq> ''stables_avail'' \<and> r \<noteq> ''rooms'' \<and> r \<noteq> ''pastures'' \<and>
     r \<noteq> ''stables'' \<and> r \<noteq> ''fields'' \<and> r \<noteq> ''fenced_stables'' \<and> r \<noteq> ''free_stables'' \<and>
     r \<noteq> ''grain_fields'' \<and> r \<noteq> ''veg_fields'' \<and> r \<noteq> ''empty_fields''"
  by (auto simp: RESOURCE_KEYS_def PROPERTIES_def)

lemma getattr_resource_raw:
  "r \<in> set RESOURCE_KEYS \<Longrightarrow>
     getattr p r = Inr (IntV (case attrs p r of Some v \<Rightarrow> v | None \<Rightarrow> resources p r))"
  using resource_key_plain [of r] by (simp add: getattr_def)

lemma getattr_resource:
  "r \<in> set RESOURCE_KEYS \<Longrightarrow> getattr p r = Inr (IntV (ledger p r))"
  by (simp add: ledger_def getattr_resource_raw)

lemma ledger_resource:
  "r \<in> set RESOURCE_KEYS \<Longrightarrow>
     ledger p r = (case attrs p r of Some v \<Rightarrow> v | None \<Rightarrow> resources p r)"
  by (simp add: ledger_def getattr_resource_raw)

lemma setattr_resource:
  "r \<in> set RESOURCE_KEYS \<Longrightarrow> setattr p r x = Inr (p\<lparr>attrs := (attrs p)(r \<mapsto> x)\<rparr>)"
  using resource_key_plain [of r] by (simp add: setattr_def)

lemma ledger_setattr:
  "r \<in> set RESOURCE_KEYS \<Longrightarrow>
     ledger (p\<lparr>attrs := (attrs p)(k \<mapsto> x)\<rparr>) r = (if r = k then x else ledger p r)"
  by (simp add: ledger_resource split: option.split)

lemma getattr_empty_fields: "getattr p ''empty_fields'' = Inr (IntV (empty_fields p))"
  by (simp add: getattr_def)

lemma resource_names:
  "''grain'' \<in> set RESOURCE_KEYS" "''veg'' \<in> set RESOURCE_KEYS" "''wood'' \<in> set RESOURCE_KEYS"
  "''grain'' \<in> set RESOURCE_TYPES" "''veg'' \<in> set RESOURCE_TYPES"
  by (simp_all add: RESOURCE_KEYS_def RESOURCE_TYPES_def)

lemma sow_change_state:
  assumes "0 \<le> g" "0 \<le> v"
  shows "change_state d (dict_of [(''grain'', - g), (''veg'', - v)])
           (dict_of [(''empty_fields'', g + v)]) p =
         (if empty_fields p < g + v \<or> (0 < g \<and> ledger p ''grain'' < g)
             \<or> (0 < v \<and> ledger p ''veg'' < v)
          then (Some AgricolaNotEnoughResources, p)
          else (None, p\<lparr>attrs := (attrs p)(''grain'' \<mapsto> - g + ledger p ''grain'',
                                           ''veg'' \<mapsto> - v + ledger p ''veg'')\<rparr>))"
  using assms
  by (cases "g = 0"; cases "v = 0")
     (simp_all add: change_state_def PlayerStateChange_init_def check_and_apply_def
        dict_of_def resource_names getattr_resource setattr_resource ledger_setattr
        getattr_empty_fields)

section \<open>The planting loop\<close>

lemma plant_loop_passed:
  "plant_loop n plant ps td =
     (case plant_loop n plant [] td of (r, ps', td') \<Rightarrow> (r, ps @ ps', td'))"
proof (induction n arbitrary: ps td)
  case 0
  then show ?case by simp
next
  case (Suc n)
  show ?case
  proof (cases "gen_next td")
    case None
    then show ?thesis by simp
  next
    case (Some t)
    obtain sk f rest where t: "t = (sk, f, rest)" by (cases t)
    show ?thesis
    proof (cases "plant f")
      case (Inl e)
      with Some t show ?thesis by simp
    next
      case (Inr f')
      have "plant_loop n plant (ps @ sk @ [f']) rest =
            (case plant_loop n plant [] rest of (r, ps', td') \<Rightarrow> (r, (ps @ sk @ [f']) @ ps', td'))"
        by (rule Suc.IH)
      moreover have "plant_loop n plant (sk @ [f']) rest =
            (case plant_loop n plant [] rest of (r, ps', td') \<Rightarrow> (r, (sk @ [f']) @ ps', td'))"
        by (rule Suc.IH)
      ultimately show ?thesis using Some t Inr
        by (simp split: prod.splits)
    qed
  qed
qed

lemma plant_first_skip:
  "filter is_empty sk = [] \<Longrightarrow> plant_first n pl (sk @ fs) = sk @ plant_first n pl fs"
proof (induction sk)
  case Nil
  then show ?case by simp
next
  case (Cons a sk)
  then show ?case by (cases n) (auto split: if_splits)
qed

lemma plant_loop_ok:
  assumes pl: "\<And>f. is_empty f \<Longrightarrow> plant f = Inr (pl f)"
    and ne: "\<And>f. \<not> is_empty (pl f)"
  shows "n \<le> length (filter is_empty td) \<Longrightarrow>
     \<exists>ps' td'. plant_loop n plant [] td = (None, ps', td') \<and>
       ps' @ td' = plant_first n pl td \<and> filter is_empty ps' = [] \<and>
       length (filter is_empty td') = length (filter is_empty td) - n"
proof (induction n arbitrary: td)
  case 0
  then show ?case by simp
next
  case (Suc n)
  from Suc.prems have "filter is_empty td \<noteq> []" by auto
  with gen_next_None obtain t where t: "gen_next td = Some t"
    by (cases "gen_next td") auto
  obtain sk f rest where t': "t = (sk, f, rest)" by (cases t)
  from gen_next_Some [of td sk f rest] t t'
  have td: "td = sk @ f # rest" and f: "is_empty f" and sk: "list_all (\<lambda>g. \<not> is_empty g) sk"
    by auto
  from sk have sk': "filter is_empty sk = []"
    by (induction sk) auto
  from Suc.prems td f sk' have "n \<le> length (filter is_empty rest)" by simp
  from Suc.IH [OF this] obtain ps' td' where
    r: "plant_loop n plant [] rest = (None, ps', td')"
    and e: "ps' @ td' = plant_first n pl rest"
    and pe: "filter is_empty ps' = []"
    and c: "length (filter is_empty td') = length (filter is_empty rest) - n"
    by blast
  have "plant_loop (Suc n) plant [] td = plant_loop n plant (sk @ [pl f]) rest"
    using t t' pl [OF f] by simp
  also have "\<dots> = (None, (sk @ [pl f]) @ ps', td')"
    using plant_loop_passed [of n plant "sk @ [pl f]" rest] r by simp
  finally have 1: "plant_loop (Suc n) plant [] td = (None, (sk @ [pl f]) @ ps', td')" .
  have 2: "((sk @ [pl f]) @ ps') @ td' = plant_first (Suc n) pl td"
    using e td f sk' by (simp add: plant_first_skip)
  have 3: "filter is_empty ((sk @ [pl f]) @ ps') = []"
    using sk' pe ne by simp
  have 4: "length (filter is_empty td') = length (filter is_empty td) - Suc n"
    using c td f sk' by simp
  from 1 2 3 4 show ?case by blast
qed

lemma plant_grain_planted: "is_empty f \<Longrightarrow> plant_grain f = Inr (planted 3 ''grain'' f)"
  by (simp add: plant_grain_def planted_def)

lemma plant_veg_planted: "is_empty f \<Longrightarrow> plant_veg f = Inr (planted 2 ''veg'' f)"
  by (simp add: plant_veg_def planted_def)

lemma planted_not_empty: "n \<noteq> 0 \<Longrightarrow> \<not> is_empty (planted n k f)"
  by (simp add: is_empty_def planted_def)

lemma empty_fields_ok:
  "list_all field_ok fs \<Longrightarrow> filter (\<lambda>f. kind f = None) fs = filter is_empty fs"
  by (induction fs) (auto simp: field_ok_def is_empty_def)

lemma sow_planting:
  assumes "nat g + nat v \<le> length (filter is_empty fs)"
  shows "\<exists>ps td. plant_loop (nat g) plant_grain [] fs = (None, ps, td) \<and>
           (\<exists>ps2 td2. plant_loop (nat v) plant_veg ps td = (None, ps2, td2) \<and>
              ps2 @ td2 = sown_fields (nat g) (nat v) fs)"
proof -
  from assms have g: "nat g \<le> length (filter is_empty fs)" by simp
  from plant_loop_ok [where plant = plant_grain and pl = "planted 3 ''grain''",
      OF plant_grain_planted planted_not_empty g]
  obtain ps td where
    1: "plant_loop (nat g) plant_grain [] fs = (None, ps, td)"
    and e1: "ps @ td = plant_first (nat g) (planted 3 ''grain'') fs"
    and pe: "filter is_empty ps = []"
    and c: "length (filter is_empty td) = length (filter is_empty fs) - nat g"
    by auto
  from assms c have v: "nat v \<le> length (filter is_empty td)" by simp
  from plant_loop_ok [where plant = plant_veg and pl = "planted 2 ''veg''",
      OF plant_veg_planted planted_not_empty v]
  obtain ps2 td2 where
    2: "plant_loop (nat v) plant_veg [] td = (None, ps2, td2)"
    and e2: "ps2 @ td2 = plant_first (nat v) (planted 2 ''veg'') td"
    by auto
  have 3: "plant_loop (nat v) plant_veg ps td = (None, ps @ ps2, td2)"
    using plant_loop_passed [of "nat v" plant_veg ps td] 2 by simp
  have "(ps @ ps2) @ td2 = ps @ plant_first (nat v) (planted 2 ''veg'') td"
    using e2 by simp
  also have "\<dots> = plant_first (nat v) (planted 2 ''veg'') (ps @ td)"
    using pe by (simp add: plant_first_skip)
  also have "\<dots> = sown_fields (nat g) (nat v) fs"
    using e1 by (simp add: sown_fields_def)
  finally have 4: "(ps @ ps2) @ td2 = sown_fields (nat g) (nat v) fs" .
  from 1 3 4 show ?thesis by blast
qed

lemma sow_exact:
  assumes "0 \<le> n_grain" "0 \<le> n_veg" "list_all field_ok (fields_objs p)"
  shows "sow n_grain n_veg p =
     (if empty_fields p < n_grain + n_veg \<or> (0 < n_grain \<and> ledger p ''grain'' < n_grain)
           \<or> (0 < n_veg \<and> ledger p ''veg'' < n_veg)
      then (Some AgricolaNotEnoughResources, p)
      else (None, p\<lparr>attrs := (attrs p)(''grain'' \<mapsto> - n_grain + ledger p ''grain'',
                                      ''veg'' \<mapsto> - n_veg + ledger p ''veg''),
                    fields_objs := sown_fields (nat n_grain) (nat n_veg) (fields_objs p)\<rparr>))"
proof (cases "empty_fields p < n_grain + n_veg \<or> (0 < n_grain \<and> ledger p ''grain'' < n_grain)
           \<or> (0 < n_veg \<and> ledger p ''veg'' < n_veg)")
  case True
  then show ?thesis
    using sow_change_state [OF assms(1,2), of "''Sowing grain and veg''" p]
    by (simp add: sow_def Let_def)
next
  case False
  then have "n_grain + n_veg \<le> empty_fields p" by simp
  with assms have "nat n_grain + nat n_veg \<le> length (filter is_empty (fields_objs p))"
    by (simp add: empty_fields_def empty_fields_ok)
  from sow_planting [OF this] obtain ps td ps2 td2 where
    1: "plant_loop (nat n_grain) plant_grain [] (fields_objs p) = (None, ps, td)"
    and 2: "plant_loop (nat n_veg) plant_veg ps td = (None, ps2, td2)"
    and 3: "ps2 @ td2 = sown_fields (nat n_grain) (nat n_veg) (fields_objs p)"
    by blast
  from False show ?thesis
    using sow_change_state [OF assms(1,2), of "''Sowing grain and veg''" p] 1 2 3
    by (simp add: sow_def Let_def)
qed

section \<open>Sowing\<close>

text \<open>
  C8. For counts \<open>n_grain, n_veg \<ge> 0\<close>, on a board whose fields satisfy the spec's
  invariant of a field (\<open>n_items = 0\<close> exactly when \<open>kind\<close> is \<open>None\<close>) and whose
  grain and veg are not negative: \<open>sow\<close> succeeds exactly when
  \<open>empty_fields \<ge> n_grain + n_veg\<close>, \<open>grain \<ge> n_grain\<close> and \<open>veg \<ge> n_veg\<close>. On success the
  grain and veg the player reads are lowered by \<open>n_grain\<close> and \<open>n_veg\<close>, the first
  \<open>n_grain\<close> empty fields of the field list hold 3 grain and the next \<open>n_veg\<close> empty
  fields hold 2 veg, and nothing else changes. Otherwise \<open>sow\<close> raises
  \<open>AgricolaNotEnoughResources\<close> and the player is unchanged.
\<close>

theorem sow_spec:
  assumes "0 \<le> n_grain" and "0 \<le> n_veg"
    and "list_all field_ok (fields_objs p)"
    and "0 \<le> ledger p ''grain''" and "0 \<le> ledger p ''veg''"
  shows "sow n_grain n_veg p =
     (if n_grain + n_veg \<le> empty_fields p \<and> n_grain \<le> ledger p ''grain''
           \<and> n_veg \<le> ledger p ''veg''
      then (None, p\<lparr>attrs := (attrs p)(''grain'' \<mapsto> ledger p ''grain'' - n_grain,
                                      ''veg'' \<mapsto> ledger p ''veg'' - n_veg),
                    fields_objs := sown_fields (nat n_grain) (nat n_veg) (fields_objs p)\<rparr>)
      else (Some AgricolaNotEnoughResources, p))"
proof -
  have "(empty_fields p < n_grain + n_veg \<or> (0 < n_grain \<and> ledger p ''grain'' < n_grain)
           \<or> (0 < n_veg \<and> ledger p ''veg'' < n_veg))
      = (\<not> (n_grain + n_veg \<le> empty_fields p \<and> n_grain \<le> ledger p ''grain''
           \<and> n_veg \<le> ledger p ''veg''))"
    using assms(4,5) by auto
  then show ?thesis
    using sow_exact [OF assms(1,2,3)] by simp
qed

text \<open>
  The end-to-end scenario of the spec: plow two fields, sow one grain and one veg, then
  fail to sow a further grain.
\<close>

lemma sow_board_ledger:
  "ledger sow_board1 ''grain'' = 1" "ledger sow_board1 ''veg'' = 1"
  "ledger sow_board2 ''grain'' = 0" "ledger sow_board2 ''veg'' = 0"
  by (simp_all add: ledger_resource resource_names sow_board2_def sow_board1_def
      sow_board0_def board_def)

theorem sow_spec_witness:
  "plow_fields [(1, 0), (1, 1)] sow_board0 = (None, sow_board1) \<and>
   sow 1 1 sow_board1 = (None, sow_board2) \<and>
   ledger sow_board2 ''grain'' = 0 \<and> ledger sow_board2 ''veg'' = 0 \<and>
   sow 1 0 sow_board2 = (Some AgricolaNotEnoughResources, sow_board2)"
proof -
  have 1: "plow_fields [(1, 0), (1, 1)] sow_board0 = (None, sow_board1)"
    by (simp add: plow_fields_def Field_init_def sow_board1_def sow_board0_def board_def
        eval_defs reach_unfold)
  have h1: "list_all field_ok (fields_objs sow_board1)" "empty_fields sow_board1 = 2"
    by (simp_all add: sow_board1_def sow_board0_def board_def field_ok_def empty_fields_def)
  have r1: "sow_board1\<lparr>attrs := (attrs sow_board1)(''grain'' \<mapsto> 0, ''veg'' \<mapsto> 0),
      fields_objs := sown_fields (nat 1) (nat 1) (fields_objs sow_board1)\<rparr> = sow_board2"
    by (simp add: sow_board2_def sow_board1_def sow_board0_def board_def sown_fields_def
        planted_def is_empty_def)
  have 2: "sow 1 1 sow_board1 = (None, sow_board2)"
    using sow_spec [of 1 1 sow_board1] h1 r1 by (simp add: sow_board_ledger)
  have h2: "list_all field_ok (fields_objs sow_board2)" "empty_fields sow_board2 = 0"
    by (simp_all add: sow_board2_def sow_board1_def sow_board0_def board_def field_ok_def
        empty_fields_def)
  have 3: "sow 1 0 sow_board2 = (Some AgricolaNotEnoughResources, sow_board2)"
    using sow_spec [of 1 0 sow_board2] h2 by (simp add: sow_board_ledger)
  from 1 2 3 show ?thesis by (simp add: sow_board_ledger)
qed

section \<open>Atomicity of the operations\<close>

lemma sow_atomic_ok:
  assumes "0 \<le> g" "0 \<le> v" "list_all field_ok (fields_objs p)" "sow g v p = (Some e, p')"
  shows "p' = p"
  using sow_exact [OF assms(1,2,3)] assms(4) by (simp split: if_splits)

text \<open>
  C1. Each board-mutating operation that raises leaves the player exactly as it was
  (\<open>atomic\<close>): building rooms, pastures and stables, plowing, baking bread, cooking
  food, adding people and adding animals, for every argument and every player. For
  \<open>sow\<close> the same holds of every error its validation raises: the one error \<open>sow\<close> can
  raise after its validation has passed is the \<open>StopIteration\<close> of the field generator,
  which needs a negative count; with counts \<open>\<ge> 0\<close> on fields that satisfy the
  spec's invariant of a field \<open>sow\<close> is atomic without exception.
\<close>

theorem operations_atomic:
  "atomic (build_rooms spcs) \<and> atomic (build_pastures args) \<and>
   atomic (build_stables spcs unit_cost) \<and> atomic (plow_fields spcs) \<and>
   atomic (bake_bread n) \<and> atomic (cook_food counts) \<and> atomic (add_people n) \<and>
   atomic (add_animals as) \<and>
   (\<forall>p e p'. sow g v p = (Some e, p') \<longrightarrow> e = StopIteration \<or> p' = p) \<and>
   (\<forall>p e p'. 0 \<le> g \<and> 0 \<le> v \<and> list_all field_ok (fields_objs p) \<and>
      sow g v p = (Some e, p') \<longrightarrow> p' = p)"
  using build_rooms_atomic build_pastures_atomic build_stables_atomic plow_fields_atomic
    bake_bread_atomic cook_food_atomic add_people_atomic add_animals_atomic
    sow_error sow_atomic_ok
  by blast

text \<open>
  With 5 wood and no reed, \<open>build_rooms([(1,0)])\<close> passes the placement checks and the
  wood prerequisite, fails on reed, and leaves the board untouched.
\<close>

theorem operations_atomic_witness:
  "build_rooms [(1, 0)] rooms_board = (Some AgricolaNotEnoughResources, rooms_board)"
proof -
  have "fst (build_rooms [(1, 0)] rooms_board) = Some AgricolaNotEnoughResources"
    by (simp add: build_rooms_def rooms_board_def board_def eval_defs reach_unfold
        room_cost_def change_state_def PlayerStateChange_init_def check_and_apply_def
        dict_of_def RESOURCE_TYPES_def getattr_def PROPERTIES_def RESOURCE_KEYS_def)
  moreover obtain r q where rq: "build_rooms [(1, 0)] rooms_board = (r, q)"
    by (cases "build_rooms [(1, 0)] rooms_board")
  ultimately have "build_rooms [(1, 0)] rooms_board = (Some AgricolaNotEnoughResources, q)"
    by simp
  moreover from this operations_atomic [of "[(1, 0)]"] have "q = rooms_board"
    by (simp add: atomic_def)
  ultimately show ?thesis by simp
qed

section \<open>The registry after building pastures\<close>

lemmas op_defs =
  change_state_def PlayerStateChange_init_def check_and_apply_def getattr_def setattr_def
  RESOURCE_TYPES_def PROPERTIES_def RESOURCE_KEYS_def ANIMALS_def dict_of_def

text \<open>
  C5 (the code on the fresh board with 4 wood). \<open>build_pastures([[(1,0)]])\<close> succeeds and
  \<open>plow_fields([(1,0)])\<close> then succeeds too, so a field and a pasture claim the cell
  \<open>(1,0)\<close>: \<open>occupied['pasture']\<close> is still the empty list of the constructor. In one
  call, \<open>build_pastures([[(2,0)], [(2,0)]])\<close> succeeds and registers two pastures on the
  cell \<open>(2,0)\<close>, since each new pasture is checked on its own.
\<close>

theorem pasture_registry_overlap:
  "build_pastures [[(1, 0)]] pasture_board0 = (None, pasture_board1) \<and>
   plow_fields [(1, 0)] pasture_board1 = (None, pasture_board2) \<and>
   map spaces (pastures_objs pasture_board2) = [[(1, 0)]] \<and>
   map Field_spaces (fields_objs pasture_board2) = [[(1, 0)]] \<and>
   fst (build_pastures [[(2, 0)], [(2, 0)]] pasture_board0) = None \<and>
   map spaces (pastures_objs (snd (build_pastures [[(2, 0)], [(2, 0)]] pasture_board0)))
     = [[(2, 0)], [(2, 0)]]"
proof -
  have 1: "build_pastures [[(1, 0)]] pasture_board0 = (None, pasture_board1)"
    by (simp add: build_pastures_def Pasture_init_def cell_fences_def
        fences_for_pasture_group_def pasture_board1_def pasture_board0_def board_def
        eval_defs op_defs reach_unfold)
  have 2: "plow_fields [(1, 0)] pasture_board1 = (None, pasture_board2)"
    by (simp add: plow_fields_def Field_init_def pasture_board2_def pasture_board1_def
        pasture_board0_def board_def eval_defs reach_unfold)
  have 3: "map spaces (pastures_objs pasture_board2) = [[(1, 0)]]"
    "map Field_spaces (fields_objs pasture_board2) = [[(1, 0)]]"
    by (simp_all add: pasture_board2_def pasture_board1_def Field_spaces_def)
  have 4: "fst (build_pastures [[(2, 0)], [(2, 0)]] pasture_board0) = None \<and>
   map spaces (pastures_objs (snd (build_pastures [[(2, 0)], [(2, 0)]] pasture_board0)))
     = [[(2, 0)], [(2, 0)]]"
    by (simp add: build_pastures_def Pasture_init_def cell_fences_def
        fences_for_pasture_group_def pasture_board0_def board_def
        eval_defs op_defs reach_unfold)
  from 1 2 3 4 show ?thesis by simp
qed

section \<open>Non-negativity of the ledger\<close>

lemma map_of_dict_set:
  "map_of (dict_set d k v) k' = (if k' = k then Some v else map_of d k')"
  by (induction d) auto

lemma set_dict_set:
  "(k', x) \<in> set (dict_set d k v) \<Longrightarrow> (k' = k \<and> x = v) \<or> (k', x) \<in> set d"
  by (induction d) (auto split: if_splits)

lemma init_prereq_mono:
  "init_prereq chg pr = Inr pr' \<Longrightarrow> map_of pr k = Some x \<Longrightarrow>
     \<exists>x'. map_of pr' k = Some x' \<and> x \<le> x'"
proof (induction chg arbitrary: pr x)
  case Nil
  then show ?case by simp
next
  case (Cons kv chg)
  obtain k0 v0 where kv: "kv = (k0, v0)" by (cases kv)
  let ?pr1 = "if v0 < 0
              then dict_set pr k0 ((case map_of pr k0 of None \<Rightarrow> 0 | Some x \<Rightarrow> x) - v0)
              else pr"
  from Cons.prems(1) kv have rest: "init_prereq chg ?pr1 = Inr pr'"
    by (simp split: if_splits)
  have "\<exists>x1. map_of ?pr1 k = Some x1 \<and> x \<le> x1"
    using Cons.prems(2) by (auto simp: map_of_dict_set)
  then obtain x1 where x1: "map_of ?pr1 k = Some x1" "x \<le> x1" by blast
  from Cons.IH [OF rest x1(1)] x1(2) show ?case by force
qed

lemma init_prereq_ge:
  "init_prereq chg pr = Inr pr' \<Longrightarrow> (k, v) \<in> set chg \<Longrightarrow> v < 0 \<Longrightarrow>
     0 \<le> (case map_of pr k of None \<Rightarrow> 0 | Some x \<Rightarrow> x) \<Longrightarrow>
     \<exists>x. map_of pr' k = Some x \<and> - v \<le> x"
proof (induction chg arbitrary: pr)
  case Nil
  then show ?case by simp
next
  case (Cons kv chg)
  obtain k0 v0 where kv: "kv = (k0, v0)" by (cases kv)
  let ?pr1 = "if v0 < 0
              then dict_set pr k0 ((case map_of pr k0 of None \<Rightarrow> 0 | Some x \<Rightarrow> x) - v0)
              else pr"
  from Cons.prems(1) kv have rest: "init_prereq chg ?pr1 = Inr pr'"
    by (simp split: if_splits)
  show ?case
  proof (cases "(k, v) = (k0, v0)")
    case True
    with Cons.prems(3,4) have "\<exists>x1. map_of ?pr1 k = Some x1 \<and> - v \<le> x1"
      by (simp add: map_of_dict_set)
    then obtain x1 where x1: "map_of ?pr1 k = Some x1" "- v \<le> x1" by blast
    from init_prereq_mono [OF rest x1(1)] x1(2) show ?thesis by force
  next
    case False
    with Cons.prems(2) kv have in': "(k, v) \<in> set chg" by auto
    have "0 \<le> (case map_of ?pr1 k of None \<Rightarrow> 0 | Some x \<Rightarrow> x)"
      using Cons.prems(4) by (auto simp: map_of_dict_set split: option.splits)
    from Cons.IH [OF rest in' Cons.prems(3) this] show ?thesis .
  qed
qed

lemma check_prereq_None:
  "check_prereq p pairs pr = None \<Longrightarrow> (k, x) \<in> set pr \<Longrightarrow>
     \<exists>a. getattr p k = Inr (IntV a) \<and> x \<le> a"
  by (induction pr) (auto split: sum.splits pyval.splits if_splits option.splits)

lemma check_prereq_fails:
  "(k, x) \<in> set pr \<Longrightarrow> getattr p k = Inr (IntV a) \<Longrightarrow> a < x \<Longrightarrow>
     \<exists>e. check_prereq p pairs pr = Some e"
  using check_prereq_None [of p pairs pr k x] by (cases "check_prereq p pairs pr") auto

lemma tracked_cases:
  "r \<in> set TRACKED \<Longrightarrow> r \<in> set RESOURCE_KEYS \<or> r \<in> set ANIMALS"
  by (auto simp: TRACKED_def RESOURCE_KEYS_def ANIMALS_def)

lemma animal_key_plain:
  "r \<in> set ANIMALS \<Longrightarrow>
     r \<notin> set RESOURCE_KEYS \<and>
     r \<notin> set PROPERTIES \<and> r \<noteq> ''people'' \<and> r \<noteq> ''people_avail'' \<and>
     r \<noteq> ''fences_avail'' \<and> r \<noteq> ''stables_avail'' \<and> r \<noteq> ''rooms'' \<and> r \<noteq> ''pastures'' \<and>
     r \<noteq> ''stables'' \<and> r \<noteq> ''fields'' \<and> r \<noteq> ''fenced_stables'' \<and> r \<noteq> ''free_stables'' \<and>
     r \<noteq> ''grain_fields'' \<and> r \<noteq> ''veg_fields'' \<and> r \<noteq> ''empty_fields''"
  by (auto simp: ANIMALS_def RESOURCE_KEYS_def PROPERTIES_def)

lemma getattr_animal_raw:
  "r \<in> set ANIMALS \<Longrightarrow>
     getattr p r = Inr (IntV (case attrs p r of Some v \<Rightarrow> v | None \<Rightarrow> animals p r))"
  using animal_key_plain [of r] by (simp add: getattr_def)

lemma getattr_tracked:
  "r \<in> set TRACKED \<Longrightarrow> getattr p r = Inr (IntV (ledger p r))"
  using tracked_cases [of r]
  by (auto simp: ledger_def getattr_animal_raw getattr_resource_raw)

lemma ledger_tracked:
  "r \<in> set TRACKED \<Longrightarrow>
     ledger p r = (case attrs p r of
                     Some v \<Rightarrow> v
                   | None \<Rightarrow> if r \<in> set RESOURCE_KEYS then resources p r else animals p r)"
  using tracked_cases [of r] animal_key_plain [of r]
  by (auto simp: ledger_def getattr_animal_raw getattr_resource_raw split: option.splits)

lemma setattr_cases:
  "setattr p k x = Inr p1 \<Longrightarrow>
     (k = ''people'' \<and> p1 = p\<lparr>people := x\<rparr>) \<or>
     (k = ''people_avail'' \<and> p1 = p\<lparr>people_avail := x\<rparr>) \<or>
     (k = ''fences_avail'' \<and> p1 = p\<lparr>fences_avail := x\<rparr>) \<or>
     (k = ''stables_avail'' \<and> p1 = p\<lparr>stables_avail := x\<rparr>) \<or>
     p1 = p\<lparr>attrs := (attrs p)(k \<mapsto> x)\<rparr>"
  by (simp add: setattr_def split: if_splits)

lemma tracked_not_counter:
  "r \<in> set TRACKED \<Longrightarrow>
     r \<noteq> ''people'' \<and> r \<noteq> ''people_avail'' \<and> r \<noteq> ''fences_avail'' \<and> r \<noteq> ''stables_avail''"
  by (auto simp: TRACKED_def)

lemma ledger_after_setattr:
  assumes "setattr p k x = Inr p1" and "r \<in> set TRACKED"
  shows "ledger p1 r = (if r = k then x else ledger p r)"
  using setattr_cases [OF assms(1)] tracked_not_counter [OF assms(2)]
  by (auto simp: ledger_tracked [OF assms(2)] split: option.splits)

lemma apply_change_nonneg:
  "distinct (map fst kvs) \<Longrightarrow>
   list_all (\<lambda>(k, v). v < 0 \<and> k \<in> set TRACKED \<longrightarrow> 0 \<le> ledger p k + v) kvs \<Longrightarrow>
   ledger_nonneg p \<Longrightarrow> apply_change kvs p = (None, p') \<Longrightarrow> ledger_nonneg p'"
proof (induction kvs arbitrary: p)
  case Nil
  then show ?case by simp
next
  case (Cons kv kvs)
  obtain k v where kv: "kv = (k, v)" by (cases kv)
  from Cons.prems(4) kv obtain a p1 where
    a: "getattr p k = Inr (IntV a)" and p1: "setattr p k (v + a) = Inr p1"
    and rest: "apply_change kvs p1 = (None, p')"
    by (auto split: sum.splits pyval.splits)
  have led: "\<And>r. r \<in> set TRACKED \<Longrightarrow> ledger p1 r = (if r = k then v + a else ledger p r)"
    using ledger_after_setattr [OF p1] .
  have ak: "k \<in> set TRACKED \<Longrightarrow> a = ledger p k"
    using a getattr_tracked [of k p] by simp
  have nn1: "ledger_nonneg p1"
    unfolding ledger_nonneg_def list_all_iff
  proof
    fix r assume r: "r \<in> set TRACKED"
    show "0 \<le> ledger p1 r"
    proof (cases "r = k")
      case False
      with led [OF r] Cons.prems(3) r show ?thesis
        by (simp add: ledger_nonneg_def list_all_iff)
    next
      case True
      with r ak have a': "a = ledger p k" by simp
      from Cons.prems(3) r True have "0 \<le> ledger p k"
        by (simp add: ledger_nonneg_def list_all_iff)
      moreover from Cons.prems(2) kv r True have "v < 0 \<longrightarrow> 0 \<le> ledger p k + v"
        by simp
      ultimately have "0 \<le> v + a" using a' by auto
      with led [OF r] True show ?thesis by simp
    qed
  qed
  have d: "distinct (map fst kvs)" and nk: "k \<notin> fst ` set kvs"
    using Cons.prems(1) kv by auto
  have inv: "list_all (\<lambda>(k, v). v < 0 \<and> k \<in> set TRACKED \<longrightarrow> 0 \<le> ledger p1 k + v) kvs"
    unfolding list_all_iff
  proof
    fix kv' assume in': "kv' \<in> set kvs"
    obtain k' v' where kv': "kv' = (k', v')" by (cases kv')
    from in' kv' nk have ne: "k' \<noteq> k" by force
    from Cons.prems(2) in' kv' have "v' < 0 \<and> k' \<in> set TRACKED \<longrightarrow> 0 \<le> ledger p k' + v'"
      by (auto simp: list_all_iff)
    with led [of k'] ne kv'
    show "case kv' of (k, v) \<Rightarrow> v < 0 \<and> k \<in> set TRACKED \<longrightarrow> 0 \<le> ledger p1 k + v"
      by auto
  qed
  from Cons.IH [OF d inv nn1 rest] show ?case .
qed

lemma change_state_success:
  assumes "change_state d chg pre p = (None, p')"
  shows "\<exists>pr. init_prereq chg pre = Inr pr \<and> check_prereq p pr pr = None \<and>
           apply_change chg p = (None, p')"
  using assms
  by (auto simp: change_state_def PlayerStateChange_init_def check_and_apply_def
      split: sum.splits option.splits if_splits prod.splits)

lemma change_covered:
  assumes "init_prereq chg pre = Inr pr"
    and "list_all (\<lambda>(k, v). v < 0 \<and> k \<in> set TRACKED \<longrightarrow>
                    0 \<le> (case map_of pre k of None \<Rightarrow> 0 | Some x \<Rightarrow> x)) chg"
    and "check_prereq p pr pr = None"
  shows "list_all (\<lambda>(k, v). v < 0 \<and> k \<in> set TRACKED \<longrightarrow> 0 \<le> ledger p k + v) chg"
  unfolding list_all_iff
proof
  fix kv assume kin: "kv \<in> set chg"
  obtain k v where kv: "kv = (k, v)" by (cases kv)
  have "v < 0 \<and> k \<in> set TRACKED \<longrightarrow> 0 \<le> ledger p k + v"
  proof
    assume h: "v < 0 \<and> k \<in> set TRACKED"
    from assms(2) kin kv h have "0 \<le> (case map_of pre k of None \<Rightarrow> 0 | Some x \<Rightarrow> x)"
      by (auto simp: list_all_iff)
    from init_prereq_ge [OF assms(1) _ _ this, of v] kin kv h obtain x where
      x: "map_of pr k = Some x" "- v \<le> x" by blast
    from x(1) have "(k, x) \<in> set pr" by (rule map_of_SomeD)
    from check_prereq_None [OF assms(3) this] obtain a where
      a: "getattr p k = Inr (IntV a)" "x \<le> a" by blast
    from a(1) h getattr_tracked [of k p] have "a = ledger p k" by simp
    with a(2) x(2) show "0 \<le> ledger p k + v" by simp
  qed
  with kv show "case kv of (k, v) \<Rightarrow> v < 0 \<and> k \<in> set TRACKED \<longrightarrow> 0 \<le> ledger p k + v"
    by simp
qed

text \<open>
  Where the change asks for no negative minimum of a tracked resource it lowers, the
  engine does what the docstring of \<open>PlayerStateChange\<close> says: a change that is applied
  keeps every tracked resource \<open>\<ge> 0\<close>, over any sequence of \<open>change_state\<close> calls, and
  a change that would take a tracked resource below 0 is rejected with the player
  unchanged.
\<close>

lemma change_state_nonneg:
  assumes "explicit_nonneg (d, chg, pre)" and "ledger_nonneg p"
    and "change_state d chg pre p = (None, p')"
  shows "ledger_nonneg p'"
proof -
  from assms(1) have dist: "distinct (map fst chg)"
    and nn: "list_all (\<lambda>(k, v). v < 0 \<and> k \<in> set TRACKED \<longrightarrow>
                    0 \<le> (case map_of pre k of None \<Rightarrow> 0 | Some x \<Rightarrow> x)) chg"
    by (simp_all add: explicit_nonneg_def)
  from change_state_success [OF assms(3)] obtain pr where
    pr: "init_prereq chg pre = Inr pr" and chk: "check_prereq p pr pr = None"
    and app: "apply_change chg p = (None, p')"
    by blast
  from apply_change_nonneg [OF dist change_covered [OF pr nn chk] assms(2) app]
  show ?thesis .
qed

lemma change_state_rejects:
  assumes "explicit_nonneg (d, chg, pre)" and "(k, v) \<in> set chg" and "k \<in> set TRACKED"
    and "v < 0" and "ledger p k + v < 0"
  shows "\<exists>e. change_state d chg pre p = (Some e, p)"
proof (cases "init_prereq chg pre")
  case (Inl e)
  then show ?thesis by (simp add: change_state_def PlayerStateChange_init_def)
next
  case (Inr pr)
  from assms(1,2,3,4) have "0 \<le> (case map_of pre k of None \<Rightarrow> 0 | Some x \<Rightarrow> x)"
    by (auto simp: explicit_nonneg_def list_all_iff)
  from init_prereq_ge [OF Inr assms(2,4) this] obtain x where
    x: "map_of pr k = Some x" "- v \<le> x" by blast
  from x(1) have kin: "(k, x) \<in> set pr" by (rule map_of_SomeD)
  from x(2) assms(5) have "ledger p k < x" by simp
  from check_prereq_fails [OF kin getattr_tracked [OF assms(3)] this]
  obtain e where "check_prereq p pr pr = Some e" by blast
  with Inr show ?thesis
    by (simp add: change_state_def PlayerStateChange_init_def check_and_apply_def)
qed

lemma run_changes_nonneg:
  "ledger_nonneg p \<Longrightarrow> list_all explicit_nonneg ts \<Longrightarrow> run_changes ts p = Some ps \<Longrightarrow>
     list_all ledger_nonneg ps"
proof (induction ts arbitrary: p ps)
  case Nil
  then show ?case by simp
next
  case (Cons t ts)
  obtain d chg pre where t: "t = (d, chg, pre)" by (cases t)
  from Cons.prems(3) t obtain p' ps' where
    cs: "change_state d chg pre p = (None, p')" and rest: "run_changes ts p' = Some ps'"
    and ps: "ps = p' # ps'"
    by (auto split: prod.splits option.splits)
  from Cons.prems(2) t have e: "explicit_nonneg (d, chg, pre)" and es: "list_all explicit_nonneg ts"
    by simp_all
  from change_state_nonneg [OF e Cons.prems(1) cs] have nn: "ledger_nonneg p'" .
  from Cons.IH [OF nn es rest] nn ps show ?case by simp
qed

text \<open>
  C2 (the code on the fresh board). The docstring of \<open>PlayerStateChange\<close> says that no
  resource amount is permitted to go below 0. \<open>__init__\<close> adds the implicit requirement
  to the explicit one, \<open>self.prereq[k] = self.prereq.get(k, 0) - v\<close>, so
  \<open>change_state('', change={'wood': -3}, prereq={'wood': -5})\<close> checks \<open>wood \<ge> -2\<close>:
  on the fresh board, where every tracked resource is 0, the change is applied and
  leaves wood at \<open>-3\<close>.
\<close>

theorem ledger_negative_after_change:
  "ledger_nonneg (board (\<lambda>_. 0)) \<and>
   PlayerStateChange_init [] [(''wood'', - 3)] [(''wood'', - 5)] [] []
     = Inr \<lparr>description = [], change = [(''wood'', - 3)], prereq = [(''wood'', - 2)],
            change_fns = [], prereq_fns = []\<rparr> \<and>
   change_state [] [(''wood'', - 3)] [(''wood'', - 5)] (board (\<lambda>_. 0))
     = (None, (board (\<lambda>_. 0))\<lparr>attrs := [''wood'' \<mapsto> - 3]\<rparr>) \<and>
   ledger ((board (\<lambda>_. 0))\<lparr>attrs := [''wood'' \<mapsto> - 3]\<rparr>) ''wood'' = - 3 \<and>
   \<not> ledger_nonneg ((board (\<lambda>_. 0))\<lparr>attrs := [''wood'' \<mapsto> - 3]\<rparr>)"
proof -
  let ?p = "board (\<lambda>_. 0)"
  let ?q = "?p\<lparr>attrs := [''wood'' \<mapsto> - 3]\<rparr>"
  have 0: "ledger_nonneg ?p"
    by (simp add: ledger_nonneg_def TRACKED_def ledger_tracked RESOURCE_KEYS_def board_def)
  have 1: "PlayerStateChange_init [] [(''wood'', - 3)] [(''wood'', - 5)] [] []
     = Inr \<lparr>description = [], change = [(''wood'', - 3)], prereq = [(''wood'', - 2)],
            change_fns = [], prereq_fns = []\<rparr>"
    by (simp add: PlayerStateChange_init_def RESOURCE_TYPES_def)
  have 2: "change_state [] [(''wood'', - 3)] [(''wood'', - 5)] ?p = (None, ?q)"
    by (simp add: board_def op_defs)
  have 3: "ledger ?q ''wood'' = - 3"
    by (simp add: ledger_resource resource_names board_def)
  then have 4: "\<not> ledger_nonneg ?q"
    by (simp add: ledger_nonneg_def TRACKED_def)
  from 0 1 2 3 4 show ?thesis by simp
qed

section \<open>The connectivity check\<close>

lemma orthog_adjacent_sym: "orthog_adjacent a b = orthog_adjacent b a"
  by (simp add: orthog_adjacent_def Let_def abs_minus_commute)

lemma orthog_adjacent_irrefl: "\<not> orthog_adjacent a a"
  by (simp add: orthog_adjacent_def)

lemma orthog_adjacent_spec: "orthog_adjacent a b = orthogonally_adjacent a b"
  by (auto simp: orthog_adjacent_def orthogonally_adjacent_def Let_def)

lemma adj_on_code: "adj_on S = {(a, b). a \<in> S \<and> b \<in> S \<and> orthog_adjacent a b}"
  by (simp add: adj_on_def orthog_adjacent_spec)

lemma add_nodes_from_set: "set (add_nodes_from G xs) = set G \<union> set xs"
  unfolding add_nodes_from_def by (induction xs arbitrary: G) auto

lemma add_nodes_from_distinct: "distinct G \<Longrightarrow> distinct (add_nodes_from G xs)"
  unfolding add_nodes_from_def by (induction xs arbitrary: G) auto

lemma nodes_set: "set (foldl add_nodes_from G objects) = set G \<union> set (concat objects)"
  by (induction objects arbitrary: G) (auto simp: add_nodes_from_set)

lemma nodes_distinct: "distinct G \<Longrightarrow> distinct (foldl add_nodes_from G objects)"
  by (induction objects arbitrary: G) (auto simp: add_nodes_from_distinct)

lemma combinations2_subset: "(a, b) \<in> set (combinations2 xs) \<Longrightarrow> a \<in> set xs \<and> b \<in> set xs"
  by (induction xs) auto

lemma combinations2_pairs:
  "a \<in> set xs \<Longrightarrow> b \<in> set xs \<Longrightarrow> a \<noteq> b \<Longrightarrow>
     (a, b) \<in> set (combinations2 xs) \<or> (b, a) \<in> set (combinations2 xs)"
  by (induction xs) auto

lemma graph_nodes:
  "set (fst (graph_of objects)) = set (concat objects)" "distinct (fst (graph_of objects))"
  by (simp_all add: graph_of_def Let_def nodes_set nodes_distinct)

lemma graph_edges:
  "((a, b) \<in> set (snd (graph_of objects)) \<or> (b, a) \<in> set (snd (graph_of objects)))
     = ((a, b) \<in> adj_on (set (concat objects)))"
proof -
  let ?N = "foldl add_nodes_from [] objects"
  have N: "set ?N = set (concat objects)" by (simp add: nodes_set)
  show ?thesis
  proof
    assume "(a, b) \<in> set (snd (graph_of objects)) \<or> (b, a) \<in> set (snd (graph_of objects))"
    then show "(a, b) \<in> adj_on (set (concat objects))"
      using combinations2_subset [of a b ?N] combinations2_subset [of b a ?N] N
      by (auto simp: graph_of_def Let_def adj_on_code orthog_adjacent_sym)
  next
    assume h: "(a, b) \<in> adj_on (set (concat objects))"
    then have "a \<noteq> b" using orthog_adjacent_irrefl [of a] by (auto simp: adj_on_code)
    with h N combinations2_pairs [of a ?N b]
    show "(a, b) \<in> set (snd (graph_of objects)) \<or> (b, a) \<in> set (snd (graph_of objects))"
      by (auto simp: graph_of_def Let_def adj_on_code orthog_adjacent_sym)
  qed
qed

lemma neighbours_iff:
  "neighbours edges vis n = (\<exists>m\<in>set vis. (m, n) \<in> set edges \<or> (n, m) \<in> set edges)"
  by (auto simp: neighbours_def list_ex_iff)

lemma reach_subset: "set vis \<subseteq> set (reach nodes edges vis)"
proof (induction nodes edges vis rule: reach.induct)
  case (1 nodes edges vis)
  let ?new = "filter (\<lambda>n. n \<notin> set vis \<and> neighbours edges vis n) nodes"
  show ?case
  proof (cases "?new = []")
    case True
    then show ?thesis by (subst reach_unfold) simp
  next
    case False
    from "1" [OF refl False] have "set (vis @ ?new) \<subseteq> set (reach nodes edges (vis @ ?new))" .
    with False show ?thesis by (subst reach_unfold) auto
  qed
qed

lemma reach_closed:
  "m \<in> set (reach nodes edges vis) \<Longrightarrow> n \<in> set nodes \<Longrightarrow>
     (m, n) \<in> set edges \<or> (n, m) \<in> set edges \<Longrightarrow> n \<in> set (reach nodes edges vis)"
proof (induction nodes edges vis rule: reach.induct)
  case (1 nodes edges vis)
  let ?new = "filter (\<lambda>n. n \<notin> set vis \<and> neighbours edges vis n) nodes"
  show ?case
  proof (cases "?new = []")
    case True
    then have r: "reach nodes edges vis = vis" by (subst reach_unfold) simp
    with "1.prems" have "m \<in> set vis" by simp
    with "1.prems"(3) have "neighbours edges vis n" by (auto simp: neighbours_iff)
    with True "1.prems"(2) have "n \<in> set vis" by (auto simp: filter_empty_conv)
    with r show ?thesis by simp
  next
    case False
    then have r: "reach nodes edges vis = reach nodes edges (vis @ ?new)"
      by (subst reach_unfold) simp
    from "1.IH" [OF refl False] "1.prems" r show ?thesis by simp
  qed
qed

lemma reach_sound:
  "n \<in> set (reach nodes edges vis) \<Longrightarrow>
     \<exists>m\<in>set vis. (m, n) \<in> {(a, b). b \<in> set nodes \<and> ((a, b) \<in> set edges \<or> (b, a) \<in> set edges)}\<^sup>*"
proof (induction nodes edges vis rule: reach.induct)
  case (1 nodes edges vis)
  let ?new = "filter (\<lambda>n. n \<notin> set vis \<and> neighbours edges vis n) nodes"
  let ?R = "{(a, b). b \<in> set nodes \<and> ((a, b) \<in> set edges \<or> (b, a) \<in> set edges)}"
  show ?case
  proof (cases "?new = []")
    case True
    then have "reach nodes edges vis = vis" by (subst reach_unfold) simp
    with "1.prems" show ?thesis by auto
  next
    case False
    then have r: "reach nodes edges vis = reach nodes edges (vis @ ?new)"
      by (subst reach_unfold) simp
    from "1.IH" [OF refl False] "1.prems" r
    obtain m where m: "m \<in> set (vis @ ?new)" "(m, n) \<in> ?R\<^sup>*" by auto
    show ?thesis
    proof (cases "m \<in> set vis")
      case True
      with m(2) show ?thesis by blast
    next
      case False
      with m(1) have "m \<in> set nodes" "neighbours edges vis m" by auto
      then obtain m0 where m0: "m0 \<in> set vis" "(m0, m) \<in> ?R"
        by (auto simp: neighbours_iff)
      from m0(2) m(2) have "(m0, n) \<in> ?R\<^sup>*" by (rule converse_rtrancl_into_rtrancl)
      with m0(1) show ?thesis by blast
    qed
  qed
qed

lemma reach_complete:
  assumes "m \<in> set vis"
    and "(m, n) \<in> {(a, b). b \<in> set nodes \<and> ((a, b) \<in> set edges \<or> (b, a) \<in> set edges)}\<^sup>*"
  shows "n \<in> set (reach nodes edges vis)"
  using assms(2)
proof (induction rule: rtrancl_induct)
  case base
  from assms(1) reach_subset show ?case by blast
next
  case (step y z)
  from step(2) have "z \<in> set nodes" "(y, z) \<in> set edges \<or> (z, y) \<in> set edges" by auto
  from reach_closed [OF step(3) this] show ?case .
qed

lemma graph_rel:
  "{(a, b). b \<in> set (fst (graph_of objects)) \<and>
       ((a, b) \<in> set (snd (graph_of objects)) \<or> (b, a) \<in> set (snd (graph_of objects)))}
     = adj_on (set (concat objects))"
  using graph_edges [of _ _ objects] graph_nodes(1) [of objects]
  by (auto simp: adj_on_code)

lemma adj_on_sym: "sym (adj_on S)"
  by (auto simp: sym_def adj_on_code orthog_adjacent_sym)

lemma connected_from:
  assumes "s \<in> S"
  shows "orthog_connected S = (\<forall>n\<in>S. (s, n) \<in> (adj_on S)\<^sup>*)"
proof
  assume "orthog_connected S"
  with assms show "\<forall>n\<in>S. (s, n) \<in> (adj_on S)\<^sup>*"
    unfolding orthog_connected_def by blast
next
  assume all: "\<forall>n\<in>S. (s, n) \<in> (adj_on S)\<^sup>*"
  have symr: "sym ((adj_on S)\<^sup>*)" by (rule sym_rtrancl [OF adj_on_sym])
  show "orthog_connected S"
    unfolding orthog_connected_def
  proof (intro ballI)
    fix a b assume "a \<in> S" "b \<in> S"
    with all have "(s, a) \<in> (adj_on S)\<^sup>*" "(s, b) \<in> (adj_on S)\<^sup>*" by blast+
    from symD [OF symr this(1)] this(2) show "(a, b) \<in> (adj_on S)\<^sup>*" by (rule rtrancl_trans)
  qed
qed

lemma connected_small: "S = {} \<or> S = {x} \<Longrightarrow> orthog_connected S"
  unfolding orthog_connected_def by blast

lemma is_connected_iff:
  assumes "fst (graph_of objects) \<noteq> []"
  shows "is_connected (graph_of objects) = orthog_connected (set (concat objects))"
proof -
  define N E S where "N = fst (graph_of objects)" and "E = snd (graph_of objects)"
    and "S = set (concat objects)"
  from assms obtain s rest where N: "N = s # rest" unfolding N_def by (cases "fst (graph_of objects)") auto
  have S: "set N = S" unfolding N_def S_def by (rule graph_nodes)
  from N S have sS: "s \<in> S" by auto
  have rel: "{(a, b). b \<in> set N \<and> ((a, b) \<in> set E \<or> (b, a) \<in> set E)} = adj_on S"
    unfolding N_def E_def S_def by (rule graph_rel)
  have reach_iff: "n \<in> set (reach N E [s]) = ((s, n) \<in> (adj_on S)\<^sup>*)" for n
  proof
    assume "n \<in> set (reach N E [s])"
    from reach_sound [OF this] show "(s, n) \<in> (adj_on S)\<^sup>*" by (simp add: rel)
  next
    assume "(s, n) \<in> (adj_on S)\<^sup>*"
    then show "n \<in> set (reach N E [s])"
      using reach_complete [of s "[s]" n N E] by (simp add: rel)
  qed
  have "is_connected (graph_of objects) = (\<forall>n\<in>set N. n \<in> set (reach N E [s]))"
    using N unfolding N_def E_def by (simp add: is_connected_def list_all_iff)
  also have "\<dots> = (\<forall>n\<in>S. (s, n) \<in> (adj_on S)\<^sup>*)"
    unfolding S reach_iff ..
  also have "\<dots> = orthog_connected S"
    by (rule connected_from [OF sS, symmetric])
  finally show ?thesis unfolding S_def .
qed

lemma check_connected_group_iff:
  "(check_connected_group objects = None) = orthog_connected (set (concat objects))"
proof (cases "length (fst (graph_of objects)) > 1")
  case True
  then have "fst (graph_of objects) \<noteq> []" by auto
  from is_connected_iff [OF this] True show ?thesis
    by (simp add: check_connected_group_def Let_def del: set_concat)
next
  case False
  define S where "S = set (concat objects)"
  from False have "fst (graph_of objects) = [] \<or> (\<exists>x. fst (graph_of objects) = [x])"
    by (cases "fst (graph_of objects)") auto
  moreover have "set (fst (graph_of objects)) = S" unfolding S_def by (rule graph_nodes)
  ultimately have "S = {} \<or> (\<exists>x. S = {x})" by auto
  then have "orthog_connected S" using connected_small by blast
  with False show ?thesis
    unfolding S_def by (simp add: check_connected_group_def Let_def del: set_concat)
qed

lemma check_connected_group_error:
  "check_connected_group objects = Some e \<Longrightarrow> e = AgricolaLogicError"
  by (simp add: check_connected_group_def Let_def split: if_splits)

lemma stable_cells:
  "concat (map Stable_spaces (stables_objs p @ map Stable spcs)) = stable_spaces p @ spcs"
  "map Stable_spaces (map Stable spcs) = map (\<lambda>s. [s]) spcs"
  by (induction spcs) (simp_all add: stable_spaces_def)

text \<open>
  C10 (amended). On a board whose shape and stable cells, like the cells passed, are in
  the range where numpy computes exactly: if the cells of the stables already built
  together with the cells passed to \<open>build_stables\<close> are not orthogonally connected,
  the call raises and changes nothing, whatever the ledger holds: \<open>IndexError\<close> for an
  empty argument, the error of the placement check (\<open>IndexError\<close> out of bounds,
  \<open>AgricolaImpossible\<close> on a duplicate or an overlap) when that check fails, and the
  connectivity error \<open>AgricolaLogicError\<close> otherwise.
\<close>

theorem build_stables_disconnected:
  assumes "cell_exact (shape p)" and "list_all cell_exact (stable_spaces p)"
    and "list_all cell_exact spcs"
    and "\<not> orthog_connected (set (stable_spaces p) \<union> set spcs)"
  shows "build_stables spcs unit_cost p =
     (if spcs = [] then (Some IndexError, p)
      else case check_spatial_objects p (map (\<lambda>s. [s]) spcs) [''pasture''] of
             Some e \<Rightarrow> (Some e, p)
           | None \<Rightarrow> (Some AgricolaLogicError, p))"
proof -
  have "set (concat (map Stable_spaces (stables_objs p @ map Stable spcs)))
      = set (stable_spaces p) \<union> set spcs"
    by (simp only: stable_cells set_append)
  with assms(4)
  have "\<not> orthog_connected (set (concat (map Stable_spaces (stables_objs p @ map Stable spcs))))"
    by (simp only: not_False_eq_True)
  then have "check_connected_group (map Stable_spaces (stables_objs p @ map Stable spcs)) \<noteq> None"
    unfolding check_connected_group_iff .
  then obtain e where e: "check_connected_group (map Stable_spaces (stables_objs p @ map Stable spcs)) = Some e"
    by blast
  from check_connected_group_error [OF e] e
  show ?thesis
    by (simp add: build_stables_def Let_def comp_def split: option.splits)
qed

lemma far_apart:
  assumes "a = (0, 0) \<or> a = (2, 0)"
  shows "\<not> orthog_connected {a, (2, 4)}"
proof -
  have "check_connected_group [[a], [(2, 4)]] \<noteq> None"
    using assms by (auto simp: eval_defs reach_unfold)
  then show ?thesis
    using check_connected_group_iff [of "[[a], [(2, 4)]]"] by simp
qed

text \<open>
  On the fresh board, \<open>build_stables([(2,0),(2,4)], 2)\<close> names two free cells that do
  not touch, and raises the connectivity error.
\<close>

theorem build_stables_disconnected_witness:
  "cell_exact (shape (board (\<lambda>_. 0))) \<and>
   list_all cell_exact (stable_spaces (board (\<lambda>_. 0))) \<and>
   list_all cell_exact [(2, 0), (2, 4)] \<and>
   \<not> orthog_connected (set (stable_spaces (board (\<lambda>_. 0))) \<union> set [(2, 0), (2, 4)]) \<and>
   build_stables [(2, 0), (2, 4)] 2 (board (\<lambda>_. 0))
     = (Some AgricolaLogicError, board (\<lambda>_. 0))"
proof -
  have 0: "cell_exact (shape (board (\<lambda>_. 0)))"
    "list_all cell_exact (stable_spaces (board (\<lambda>_. 0)))"
    "list_all cell_exact [(2, 0), (2, 4)]"
    by (simp_all add: cell_exact_def int64_exact_def stable_spaces_def board_def)
  have 1: "\<not> orthog_connected (set (stable_spaces (board (\<lambda>_. 0))) \<union> set [(2, 0), (2, 4)])"
    using far_apart [of "(2, 0)"] by (simp add: stable_spaces_def board_def)
  have 2: "check_spatial_objects (board (\<lambda>_. 0)) (map (\<lambda>s. [s]) [(2, 0), (2, 4)]) [''pasture'']
      = None"
    by (simp add: board_def eval_defs)
  from build_stables_disconnected [OF 0 1, of 2] 2 1 0 show ?thesis by simp
qed

text \<open>
  The claim as stated, with the connectivity error in every case, is false in that
  range too: on the fresh board \<open>build_stables([(0,0),(2,4)], 2)\<close> names a room's cell
  and raises \<open>AgricolaImpossible\<close> before connectivity is looked at.
\<close>

theorem build_stables_disconnected_counterexample:
  "\<not> (\<forall>spcs unit_cost p.
        cell_exact (shape p) \<and> list_all cell_exact (stable_spaces p) \<and>
        list_all cell_exact spcs \<and>
        \<not> orthog_connected (set (stable_spaces p) \<union> set spcs) \<longrightarrow>
        build_stables spcs unit_cost p = (Some AgricolaLogicError, p))"
proof
  assume a: "\<forall>spcs unit_cost p.
        cell_exact (shape p) \<and> list_all cell_exact (stable_spaces p) \<and>
        list_all cell_exact spcs \<and>
        \<not> orthog_connected (set (stable_spaces p) \<union> set spcs) \<longrightarrow>
        build_stables spcs unit_cost p = (Some AgricolaLogicError, p)"
  have 0: "cell_exact (shape (board (\<lambda>_. 0)))"
    "list_all cell_exact (stable_spaces (board (\<lambda>_. 0)))"
    "list_all cell_exact [(0, 0), (2, 4)]"
    by (simp_all add: cell_exact_def int64_exact_def stable_spaces_def board_def)
  have 1: "\<not> orthog_connected (set (stable_spaces (board (\<lambda>_. 0))) \<union> set [(0, 0), (2, 4)])"
    using far_apart [of "(0, 0)"] by (simp add: stable_spaces_def board_def)
  have 2: "build_stables [(0, 0), (2, 4)] 2 (board (\<lambda>_. 0))
      = (Some AgricolaImpossible, board (\<lambda>_. 0))"
    by (simp add: build_stables_def board_def eval_defs)
  from a 0 1 have "build_stables [(0, 0), (2, 4)] 2 (board (\<lambda>_. 0))
      = (Some AgricolaLogicError, board (\<lambda>_. 0))" by blast
  with 2 show False by simp
qed

section \<open>The capacity solver decides the splitting problem\<close>

lemma sub_left: "Q + R \<subseteq># C \<Longrightarrow> Q \<subseteq># (C :: 'a multiset)"
  using mset_subset_eq_add_left subset_mset.dual_order.trans by blast

lemma sub_add: "Q \<subseteq># C \<Longrightarrow> R \<subseteq># C - Q \<Longrightarrow> Q + R \<subseteq># (C :: 'a multiset)"
  by (simp add: add.commute subset_mset.le_diff_conv2)

lemma sub_rest: "Q + R \<subseteq># C \<Longrightarrow> R \<subseteq># (C :: 'a multiset) - Q"
  by (metis add.commute mset_subset_eq_add_left subset_mset.dual_order.trans
    subset_mset.le_diff_conv2)

lemma sum_mset_nonneg_int: "(\<And>x. x \<in># M \<Longrightarrow> (0::int) \<le> x) \<Longrightarrow> 0 \<le> sum_mset M"
  by (induction M) auto

lemma sum_sub:
  assumes "Q \<subseteq># C" and "\<And>x. x \<in># C \<Longrightarrow> (0::int) \<le> x"
  shows "sum_mset Q \<le> sum_mset C"
proof -
  have "C = Q + (C - Q)" using assms(1) by simp
  then have "sum_mset C = sum_mset Q + sum_mset (C - Q)" by (metis sum_mset.union)
  moreover have "0 \<le> sum_mset (C - Q)"
    by (rule sum_mset_nonneg_int) (auto dest: in_diffD intro: assms(2))
  ultimately show ?thesis by simp
qed

lemma diff_diff_sub:
  "A' \<subseteq># A \<Longrightarrow> B' \<subseteq># B \<Longrightarrow> (A + B) - (A' + B') = (A - A') + (B - (B' :: 'a multiset))"
  by simp

lemma split_in_order_parts:
  "length Qs = length gs \<Longrightarrow> sum_list Qs \<subseteq># C \<Longrightarrow>
     (\<forall>i<length gs. gs ! i \<le> sum_mset (Qs ! i)) \<Longrightarrow> split_in_order gs C"
proof (induction gs arbitrary: Qs C)
  case Nil
  then show ?case by simp
next
  case (Cons g gs)
  then obtain Q Qs' where Qs: "Qs = Q # Qs'" by (cases Qs) auto
  from Cons.prems(2) Qs have sub: "Q + sum_list Qs' \<subseteq># C" by simp
  from sub have Q: "Q \<subseteq># C" by (rule sub_left)
  from sub have rest: "sum_list Qs' \<subseteq># C - Q" by (rule sub_rest)
  from Cons.prems(3) Qs have g: "g \<le> sum_mset Q" by force
  from Cons.prems(1) Qs have len: "length Qs' = length gs" by simp
  have nth: "\<forall>i<length gs. gs ! i \<le> sum_mset (Qs' ! i)"
  proof (intro allI impI)
    fix i assume "i < length gs"
    with Cons.prems(3) have "(g # gs) ! Suc i \<le> sum_mset (Qs ! Suc i)" by auto
    with Qs show "gs ! i \<le> sum_mset (Qs' ! i)" by simp
  qed
  from Cons.IH [OF len rest nth] Q g show ?case by auto
qed

lemma split_in_order_obtain:
  "split_in_order gs C \<Longrightarrow>
     \<exists>Qs. length Qs = length gs \<and> sum_list Qs \<subseteq># C \<and>
       (\<forall>i<length gs. gs ! i \<le> sum_mset (Qs ! i))"
proof (induction gs arbitrary: C)
  case Nil
  then show ?case by simp
next
  case (Cons g gs)
  then obtain Q where Q: "Q \<subseteq># C" "g \<le> sum_mset Q" "split_in_order gs (C - Q)" by auto
  from Cons.IH [OF Q(3)] obtain Qs where
    Qs: "length Qs = length gs" "sum_list Qs \<subseteq># C - Q"
    "\<forall>i<length gs. gs ! i \<le> sum_mset (Qs ! i)" by blast
  have 1: "sum_list (Q # Qs) \<subseteq># C"
    using sub_add [OF Q(1) Qs(2)] by simp
  have 2: "\<forall>i<length (g # gs). (g # gs) ! i \<le> sum_mset ((Q # Qs) ! i)"
    using Q(2) Qs(3) by (auto simp: nth_Cons split: nat.splits)
  have 3: "length (Q # Qs) = length (g # gs)" using Qs(1) by simp
  from 1 2 3 show ?case by blast
qed

lemma sum_list_reindex:
  fixes Ps :: "'a multiset list"
  assumes "bij_betw \<pi> {..<length Ps} {..<length Ps}"
  shows "sum_list (map (\<lambda>i. Ps ! \<pi> i) [0..<length Ps]) = sum_list Ps"
proof -
  have "sum_list (map (\<lambda>i. Ps ! \<pi> i) [0..<length Ps]) = (\<Sum>i\<in>{..<length Ps}. Ps ! \<pi> i)"
    by (simp add: interv_sum_list_conv_sum_set_nat atLeast0LessThan)
  also have "\<dots> = (\<Sum>i\<in>{..<length Ps}. Ps ! i)"
    by (rule sum.reindex_bij_betw [OF assms])
  also have "\<dots> = sum_list Ps"
    by (simp add: sum_list_sum_nth atLeast0LessThan)
  finally show ?thesis .
qed

lemma can_split_in_order: "can_split gs C = split_in_order gs C"
proof
  assume "can_split gs C"
  then obtain Ps \<pi> where
    len: "length Ps = length gs" and sub: "sum_list Ps \<subseteq># C"
    and bij: "bij_betw \<pi> {..<length gs} {..<length gs}"
    and ge: "\<forall>i<length gs. gs ! i \<le> sum_mset (Ps ! \<pi> i)"
    unfolding can_split_def by blast
  let ?Qs = "map (\<lambda>i. Ps ! \<pi> i) [0..<length Ps]"
  have "sum_list ?Qs = sum_list Ps"
    using bij len by (intro sum_list_reindex) simp
  with sub have 1: "sum_list ?Qs \<subseteq># C" by simp
  have 2: "length ?Qs = length gs" using len by simp
  have 3: "\<forall>i<length gs. gs ! i \<le> sum_mset (?Qs ! i)" using ge len by simp
  from split_in_order_parts [OF 2 1 3] show "split_in_order gs C" .
next
  assume "split_in_order gs C"
  from split_in_order_obtain [OF this] obtain Qs where
    Qs: "length Qs = length gs" "sum_list Qs \<subseteq># C"
    "\<forall>i<length gs. gs ! i \<le> sum_mset (Qs ! i)" by blast
  have "bij_betw id {..<length gs} {..<length gs}" by simp
  with Qs show "can_split gs C"
    unfolding can_split_def by (intro exI [of _ Qs] conjI exI [of _ id]) simp_all
qed

lemma dict_set_new: "k \<notin> fst ` set d \<Longrightarrow> dict_set d k v = d @ [(k, v)]"
  by (induction d) auto

lemma foldl_dict_set_distinct:
  "distinct (map fst (acc @ kvs)) \<Longrightarrow>
     foldl (\<lambda>d (k, v). dict_set d k v) acc kvs = acc @ kvs"
proof (induction kvs arbitrary: acc)
  case Nil
  then show ?case by simp
next
  case (Cons kv kvs)
  obtain k v where kv: "kv = (k, v)" by (cases kv)
  from Cons.prems kv have "k \<notin> fst ` set acc" by auto
  then have 1: "dict_set acc k v = acc @ [(k, v)]" by (rule dict_set_new)
  from Cons.prems kv have "distinct (map fst ((acc @ [(k, v)]) @ kvs))" by simp
  from Cons.IH [OF this] 1 kv show ?case by simp
qed

lemma dict_of_distinct: "distinct (map fst kvs) \<Longrightarrow> dict_of kvs = kvs"
  using foldl_dict_set_distinct [of "[]" kvs] by (simp add: dict_of_def)

lemma in_product_ranges:
  "(counts \<in> set (product_lists (map (\<lambda>(k, v). [0..v]) d)))
     = list_all2 (\<lambda>c (k, v). 0 \<le> c \<and> c \<le> v) counts d"
  by (induction d arbitrary: counts) (auto simp: list_all2_Cons2)

lemma sub_dict_zip:
  assumes "list_all2 (\<lambda>c (k, v). 0 \<le> c \<and> c \<le> v) counts d"
  shows "sub_dict d (zip (map fst d) counts)"
proof -
  from assms have len: "length counts = length d" by (rule list_all2_lengthD)
  from len assms show ?thesis
    unfolding sub_dict_def
    by (induction counts d rule: list_induct2) auto
qed

lemma sub_dict_counts:
  assumes "sub_dict d s"
  shows "s = zip (map fst d) (map snd s) \<and> list_all2 (\<lambda>c (k, v). 0 \<le> c \<and> c \<le> v) (map snd s) d"
proof -
  from assms have len: "length d = length s"
    unfolding sub_dict_def by (auto dest: list_all2_lengthD)
  from len assms show ?thesis
    unfolding sub_dict_def
    by (induction d s rule: list_induct2) auto
qed

lemma enumerate_sub_dicts:
  assumes "distinct (map fst d)"
  shows "list_ex (\<lambda>counts. P (dict_of (zip (map fst d) counts)))
           (product_lists (map (\<lambda>(k, v). [0..v]) d))
         = (\<exists>s. sub_dict d s \<and> P s)"
proof
  assume "list_ex (\<lambda>counts. P (dict_of (zip (map fst d) counts)))
           (product_lists (map (\<lambda>(k, v). [0..v]) d))"
  then obtain counts where
    c: "list_all2 (\<lambda>c (k, v). 0 \<le> c \<and> c \<le> v) counts d"
    and P: "P (dict_of (zip (map fst d) counts))"
    by (auto simp: list_ex_iff in_product_ranges)
  from c have len: "length counts = length d" by (rule list_all2_lengthD)
  then have "map fst (zip (map fst d) counts) = map fst d" by simp
  with assms have "dict_of (zip (map fst d) counts) = zip (map fst d) counts"
    by (intro dict_of_distinct) simp
  with P sub_dict_zip [OF c] show "\<exists>s. sub_dict d s \<and> P s" by auto
next
  assume "\<exists>s. sub_dict d s \<and> P s"
  then obtain s where s: "sub_dict d s" and P: "P s" by blast
  from sub_dict_counts [OF s] have z: "s = zip (map fst d) (map snd s)"
    and c: "list_all2 (\<lambda>c (k, v). 0 \<le> c \<and> c \<le> v) (map snd s) d" by simp_all
  from s assms have "distinct (map fst s)" by (simp add: sub_dict_def)
  then have "dict_of s = s" by (rule dict_of_distinct)
  with P z have "P (dict_of (zip (map fst d) (map snd s)))" by simp
  moreover from c have "map snd s \<in> set (product_lists (map (\<lambda>(k, v). [0..v]) d))"
    by (simp only: in_product_ranges)
  ultimately show "list_ex (\<lambda>counts. P (dict_of (zip (map fst d) counts)))
           (product_lists (map (\<lambda>(k, v). [0..v]) d))"
    unfolding list_ex_iff by blast
qed

lemma mset_of_Cons: "mset_of ((k, v) # d) = replicate_mset (nat v) k + mset_of d"
  by (simp add: mset_of_def)

lemma mset_of_Nil: "mset_of [] = {#}"
  by (simp add: mset_of_def)

lemma map_of_middle:
  "k \<notin> fst ` set done \<Longrightarrow> map_of (done @ (k, v) # rest) k = Some v"
  by (induction "done") auto

lemma dict_set_middle:
  "k \<notin> fst ` set done \<Longrightarrow> dict_set (done @ (k, v) # rest) k x = done @ (k, x) # rest"
  by (induction "done") auto

lemma multiset_subtract_shape_gen:
  assumes "length rd = length rs" and "map fst rs = map fst rd"
    and "distinct (map fst (done @ rd))"
  shows "foldl (\<lambda>a_copy (k, v).
                  case map_of a_copy k of
                    None \<Rightarrow> a_copy
                  | Some c \<Rightarrow> dict_set a_copy k (max 0 (c - v))) (done @ rd) rs
         = done @ map (\<lambda>((k, v), (k', c)). (k, max 0 (v - c))) (zip rd rs)"
  using assms
proof (induction rd rs arbitrary: "done" rule: list_induct2)
  case Nil
  then show ?case by simp
next
  case (Cons x xs y ys)
  obtain k v where x: "x = (k, v)" by (cases x)
  obtain k' c where y: "y = (k', c)" by (cases y)
  from Cons.prems(1) x y have kk: "k' = k" by simp
  from Cons.prems(2) x have nk: "k \<notin> fst ` set done" by auto
  have d1: "distinct (map fst ((done @ [(k, max 0 (v - c))]) @ xs))"
    using Cons.prems(2) x by simp
  have m1: "map fst ys = map fst xs" using Cons.prems(1) by simp
  have e: "map_of (done @ (k, v) # xs) k = Some v"
    by (rule map_of_middle [OF nk])
  have f: "dict_set (done @ (k, v) # xs) k (max 0 (v - c)) = done @ (k, max 0 (v - c)) # xs"
    by (rule dict_set_middle [OF nk])
  from Cons.IH [OF m1 d1] x y kk show ?case
    by (simp add: e f del: map_of_append)
qed

lemma multiset_subtract_shape:
  assumes "sub_dict d s" and "distinct (map fst d)"
  shows "multiset_subtract d s = map (\<lambda>((k, v), (k', c)). (k, max 0 (v - c))) (zip d s)"
proof -
  from assms(1) have len: "length d = length s" and keys: "map fst s = map fst d"
    unfolding sub_dict_def by (auto dest: list_all2_lengthD)
  from multiset_subtract_shape_gen [of d s "[]", OF len keys] assms(2)
  show ?thesis by (simp add: multiset_subtract_def)
qed

lemma replicate_mset_diff:
  "replicate_mset (m - n) x = replicate_mset m x - replicate_mset n x"
  by (rule multiset_eqI) simp

lemma sub_dict_subset: "sub_dict d s \<Longrightarrow> mset_of s \<subseteq># mset_of d"
proof -
  assume a: "sub_dict d s"
  then have len: "length d = length s"
    unfolding sub_dict_def by (auto dest: list_all2_lengthD)
  from len a show ?thesis
  proof (induction d s rule: list_induct2)
    case Nil
    then show ?case by simp
  next
    case (Cons x xs y ys)
    obtain k v where x: "x = (k, v)" by (cases x)
    obtain k' c where y: "y = (k', c)" by (cases y)
    from Cons.prems x y have kk: "k' = k" and c: "0 \<le> c" "c \<le> v" and rest: "sub_dict xs ys"
      by (auto simp: sub_dict_def)
    from c have "nat c \<le> nat v" by simp
    then have "replicate_mset (nat c) k \<subseteq># replicate_mset (nat v) k"
      by (simp add: replicate_mset_msubseteq_iff)
    with Cons.IH [OF rest] x y kk show ?case
      by (simp add: mset_of_Cons mset_subset_eq_mono_add)
  qed
qed

lemma mset_of_subtracted:
  "sub_dict d s \<Longrightarrow>
     mset_of (map (\<lambda>((k, v), (k', c)). (k, max 0 (v - c))) (zip d s)) = mset_of d - mset_of s"
proof -
  assume a: "sub_dict d s"
  then have len: "length d = length s"
    unfolding sub_dict_def by (auto dest: list_all2_lengthD)
  from len a show ?thesis
  proof (induction d s rule: list_induct2)
    case Nil
    then show ?case by (simp add: mset_of_Nil)
  next
    case (Cons x xs y ys)
    obtain k v where x: "x = (k, v)" by (cases x)
    obtain k' c where y: "y = (k', c)" by (cases y)
    from Cons.prems x y have kk: "k' = k" and c: "0 \<le> c" "c \<le> v" and rest: "sub_dict xs ys"
      by (auto simp: sub_dict_def)
    from c have "nat c \<le> nat v" by simp
    then have 1: "replicate_mset (nat c) k \<subseteq># replicate_mset (nat v) k"
      by (simp add: replicate_mset_msubseteq_iff)
    from c have 2: "nat (max 0 (v - c)) = nat v - nat c" by simp
    have 3: "mset_of ys \<subseteq># mset_of xs" using rest by (rule sub_dict_subset)
    show ?case
      using Cons.IH [OF rest] x y kk
      by (simp add: mset_of_Cons 2 replicate_mset_diff diff_diff_sub [OF 1 3])
  qed
qed

lemma capacity_subtracted:
  "capacity_multiset d \<Longrightarrow> sub_dict d s \<Longrightarrow>
     capacity_multiset (map (\<lambda>((k, v), (k', c)). (k, max 0 (v - c))) (zip d s))"
proof -
  assume cm: "capacity_multiset d" and a: "sub_dict d s"
  then have len: "length d = length s"
    unfolding sub_dict_def by (auto dest: list_all2_lengthD)
  have keys: "map fst (map (\<lambda>((k, v), (k', c)). (k, max 0 (v - c))) (zip d s)) = map fst d"
    using len by (induction d s rule: list_induct2) auto
  have vals: "list_all (\<lambda>(k, v). 0 \<le> k \<and> 0 \<le> v)
                (map (\<lambda>((k, v), (k', c)). (k, max 0 (v - c))) (zip d s))"
    using len cm unfolding capacity_multiset_def
    by (induction d s rule: list_induct2) auto
  from cm keys vals show ?thesis by (simp add: capacity_multiset_def)
qed

lemma weight_mset_of:
  "list_all (\<lambda>(k, c). 0 \<le> c) s \<Longrightarrow> multiset_weight s = sum_mset (mset_of s)"
  by (induction s) (auto simp: multiset_weight_def mset_of_Nil mset_of_Cons)

lemma sub_dict_nonneg: "sub_dict d s \<Longrightarrow> list_all (\<lambda>(k, c). 0 \<le> c) s"
  unfolding sub_dict_def list_all_iff
  by (auto simp: list_all2_conv_all_nth in_set_conv_nth split: prod.splits) (metis prod.collapse)

lemma mset_of_keys: "x \<in># mset_of d \<Longrightarrow> x \<in> fst ` set d"
  by (induction d) (auto simp: mset_of_Nil mset_of_Cons split: if_splits)

lemma mset_of_nonneg: "capacity_multiset d \<Longrightarrow> x \<in># mset_of d \<Longrightarrow> 0 \<le> x"
  using mset_of_keys [of x d] by (auto simp: capacity_multiset_def list_all_iff)

lemma sub_dict_exists:
  "distinct (map fst d) \<Longrightarrow> list_all (\<lambda>(k, v). 0 \<le> v) d \<Longrightarrow> Q \<subseteq># mset_of d \<Longrightarrow>
     \<exists>s. sub_dict d s \<and> mset_of s = Q"
proof (induction d arbitrary: Q)
  case Nil
  then show ?case by (simp add: mset_of_Nil sub_dict_def)
next
  case (Cons kv d)
  obtain k v where kv: "kv = (k, v)" by (cases kv)
  from Cons.prems(1) kv have nk: "k \<notin> fst ` set d" and dist: "distinct (map fst d)" by auto
  from Cons.prems(2) kv have v: "0 \<le> v" and vals: "list_all (\<lambda>(k, v). 0 \<le> v) d" by auto
  from nk mset_of_keys [of k d] have ck: "count (mset_of d) k = 0"
    by (auto simp: count_eq_zero_iff)
  define c where "c = count Q k"
  define Q' where "Q' = Q - replicate_mset c k"
  have le: "\<And>a. count Q a \<le> count (replicate_mset (nat v) k) a + count (mset_of d) a"
    using Cons.prems(3) kv by (simp add: mset_of_Cons subseteq_mset_def)
  from le [of k] ck have cv: "c \<le> nat v" by (simp add: c_def)
  have sub: "Q' \<subseteq># mset_of d"
  proof (rule mset_subset_eqI)
    fix a
    show "count Q' a \<le> count (mset_of d) a"
      using le [of a] by (cases "a = k") (simp_all add: Q'_def c_def)
  qed
  have Q: "Q = replicate_mset c k + Q'"
    by (rule multiset_eqI) (simp add: Q'_def c_def)
  from Cons.IH [OF dist vals sub] obtain s where s: "sub_dict d s" "mset_of s = Q'" by blast
  have "sub_dict (kv # d) ((k, int c) # s)"
    using s(1) cv v kv by (simp add: sub_dict_def)
  moreover have "mset_of ((k, int c) # s) = Q"
    using s(2) Q by (simp add: mset_of_Cons)
  ultimately show ?case by blast
qed

lemma split_sum_le:
  "split_in_order gs C \<Longrightarrow> (\<And>x. x \<in># C \<Longrightarrow> 0 \<le> x) \<Longrightarrow> sum_list gs \<le> sum_mset C"
proof (induction gs arbitrary: C)
  case Nil
  then show ?case by (simp add: sum_mset_nonneg_int)
next
  case (Cons g gs)
  then obtain Q where Q: "Q \<subseteq># C" "g \<le> sum_mset Q" "split_in_order gs (C - Q)" by auto
  have nn: "\<And>x. x \<in># C - Q \<Longrightarrow> 0 \<le> x" using Cons.prems(2) by (auto dest: in_diffD)
  from Cons.IH [OF Q(3) nn] have 1: "sum_list gs \<le> sum_mset (C - Q)" .
  have "C = Q + (C - Q)" using Q(1) by simp
  then have "sum_mset C = sum_mset Q + sum_mset (C - Q)" by (metis sum_mset.union)
  with 1 Q(2) show ?case by simp
qed

lemma capacity_counts: "capacity_multiset d \<Longrightarrow> list_all (\<lambda>(k, v). 0 \<le> v) d"
  by (auto simp: capacity_multiset_def list_all_iff)

lemma single_requirement:
  assumes "capacity_multiset d"
  shows "(g \<le> multiset_weight d) = (\<exists>Q. Q \<subseteq># mset_of d \<and> g \<le> sum_mset Q)"
proof -
  have w: "multiset_weight d = sum_mset (mset_of d)"
    by (rule weight_mset_of [OF capacity_counts [OF assms]])
  show ?thesis
  proof
    assume "g \<le> multiset_weight d"
    with w show "\<exists>Q. Q \<subseteq># mset_of d \<and> g \<le> sum_mset Q" by auto
  next
    assume "\<exists>Q. Q \<subseteq># mset_of d \<and> g \<le> sum_mset Q"
    then obtain Q where Q: "Q \<subseteq># mset_of d" "g \<le> sum_mset Q" by blast
    from sum_sub [OF Q(1) mset_of_nonneg [OF assms]] Q(2) w
    show "g \<le> multiset_weight d" by simp
  qed
qed

lemma multiset_satisfy_in_order:
  "capacity_multiset d \<Longrightarrow> multiset_satisfy gs d = split_in_order gs (mset_of d)"
proof (induction gs arbitrary: d)
  case Nil
  then show ?case by simp
next
  case (Cons g gs)
  note cm = Cons.prems
  show ?case
  proof (cases gs)
    case Nil
    with single_requirement [OF cm, of g] show ?thesis by simp
  next
    case (Cons g' gs')
    have dist: "distinct (map fst d)" using cm by (simp add: capacity_multiset_def)
    have w: "multiset_weight d = sum_mset (mset_of d)"
      by (rule weight_mset_of [OF capacity_counts [OF cm]])
    have step: "(\<exists>s. sub_dict d s \<and> \<not> multiset_weight s < g \<and>
                    multiset_satisfy gs (multiset_subtract d s))
                = split_in_order (g # gs) (mset_of d)"
    proof
      assume "\<exists>s. sub_dict d s \<and> \<not> multiset_weight s < g \<and>
                    multiset_satisfy gs (multiset_subtract d s)"
      then obtain s where s: "sub_dict d s" "\<not> multiset_weight s < g"
        "multiset_satisfy gs (multiset_subtract d s)" by blast
      let ?r = "map (\<lambda>((k, v), (k', c)). (k, max 0 (v - c))) (zip d s)"
      have r: "multiset_subtract d s = ?r" by (rule multiset_subtract_shape [OF s(1) dist])
      from Cons.IH [OF capacity_subtracted [OF cm s(1)]] s(3) r
      have "split_in_order gs (mset_of ?r)" by simp
      then have 1: "split_in_order gs (mset_of d - mset_of s)"
        by (simp only: mset_of_subtracted [OF s(1)])
      from s(2) weight_mset_of [OF sub_dict_nonneg [OF s(1)]]
      have 2: "g \<le> sum_mset (mset_of s)" by simp
      from 1 2 sub_dict_subset [OF s(1)] show "split_in_order (g # gs) (mset_of d)" by auto
    next
      assume "split_in_order (g # gs) (mset_of d)"
      then obtain Q where Q: "Q \<subseteq># mset_of d" "g \<le> sum_mset Q"
        "split_in_order gs (mset_of d - Q)" by auto
      from sub_dict_exists [OF dist capacity_counts [OF cm] Q(1)]
      obtain s where s: "sub_dict d s" "mset_of s = Q" by blast
      let ?r = "map (\<lambda>((k, v), (k', c)). (k, max 0 (v - c))) (zip d s)"
      have r: "multiset_subtract d s = ?r" by (rule multiset_subtract_shape [OF s(1) dist])
      from Q(3) s(2) have "split_in_order gs (mset_of ?r)"
        by (simp only: mset_of_subtracted [OF s(1)])
      with Cons.IH [OF capacity_subtracted [OF cm s(1)]] r
      have 1: "multiset_satisfy gs (multiset_subtract d s)" by simp
      from Q(2) s(2) weight_mset_of [OF sub_dict_nonneg [OF s(1)]]
      have 2: "\<not> multiset_weight s < g" by simp
      from s(1) 1 2 show "\<exists>s. sub_dict d s \<and> \<not> multiset_weight s < g \<and>
                    multiset_satisfy gs (multiset_subtract d s)" by blast
    qed
    have enum: "list_ex
             (\<lambda>counts.
                \<not> multiset_weight (dict_of (zip (map fst d) counts)) < g \<and>
                multiset_satisfy gs (multiset_subtract d (dict_of (zip (map fst d) counts))))
             (product_lists (map (\<lambda>(k, v). [0..v]) d))
          = (\<exists>s. sub_dict d s \<and> \<not> multiset_weight s < g \<and>
                    multiset_satisfy gs (multiset_subtract d s))"
      by (rule enumerate_sub_dicts
          [OF dist, of "\<lambda>s. \<not> multiset_weight s < g \<and> multiset_satisfy gs (multiset_subtract d s)"])
    show ?thesis
    proof (cases "multiset_weight d < sum_list (g # gs)")
      case True
      have "\<not> split_in_order (g # gs) (mset_of d)"
      proof
        assume "split_in_order (g # gs) (mset_of d)"
        from split_sum_le [OF this mset_of_nonneg [OF cm]] True w show False by simp
      qed
      with True Cons show ?thesis by simp
    next
      case False
      have "multiset_satisfy (g # gs) d = list_ex
             (\<lambda>counts.
                \<not> multiset_weight (dict_of (zip (map fst d) counts)) < g \<and>
                multiset_satisfy gs (multiset_subtract d (dict_of (zip (map fst d) counts))))
             (product_lists (map (\<lambda>(k, v). [0..v]) d))"
        using False Cons by (simp add: Let_def)
      with enum step show ?thesis by simp
    qed
  qed
qed

text \<open>
  C3. For every list of requirements \<open>gs\<close> and every capacity multiset \<open>d\<close> (a dict with
  distinct keys whose capacities and multiplicities are not negative),
  \<open>multiset_satisfy gs d\<close> returns True if and only if the multiset can be split into
  pairwise-disjoint sub-multisets, one per requirement under some bijection, each of
  total weight at least its requirement. In particular the empty requirement list is
  satisfiable, and a single requirement is satisfiable iff the total weight of the
  multiset is at least that requirement.
\<close>

theorem multiset_satisfy_correct:
  assumes "capacity_multiset d"
  shows "multiset_satisfy gs d = can_split gs (mset_of d) \<and>
         multiset_satisfy [] d \<and>
         multiset_satisfy [g] d = (g \<le> sum_mset (mset_of d))"
proof -
  have "multiset_satisfy gs d = can_split gs (mset_of d)"
    by (simp only: multiset_satisfy_in_order [OF assms] can_split_in_order)
  moreover have "multiset_satisfy [g] d = (g \<le> sum_mset (mset_of d))"
    by (simp add: weight_mset_of [OF capacity_counts [OF assms]])
  ultimately show ?thesis by simp
qed

theorem multiset_satisfy_correct_witness:
  "capacity_multiset (Counter [1, 1, 2]) \<and>
   can_split [2, 2] (mset_of (Counter [1, 1, 2])) \<and>
   \<not> can_split [3, 2] (mset_of (Counter [1, 1, 2])) \<and>
   sum_mset (mset_of (Counter [1, 1, 2])) = 4"
proof -
  have c: "capacity_multiset (Counter [1, 1, 2])" by code_simp
  have s: "multiset_satisfy [2, 2] (Counter [1, 1, 2])" by code_simp
  have n: "\<not> multiset_satisfy [3, 2] (Counter [1, 1, 2])" by code_simp
  have w: "multiset_satisfy [4] (Counter [1, 1, 2])" by code_simp
  have v: "\<not> multiset_satisfy [5] (Counter [1, 1, 2])" by code_simp
  from multiset_satisfy_correct [OF c, of "[2, 2]" 4] multiset_satisfy_correct [OF c, of "[3, 2]" 5]
    c s n w v show ?thesis by simp
qed

end
